theory Spec2Isabelle
  imports Main "HOL-Library.Word" "HOL-Library.Signed_Division" "HOL-Library.Multiset"
begin

section \<open>The file system as the program sees it\<close>

text \<open>
  \<^verbatim>\<open>mdu.c\<close> talks to the file system through \<^verbatim>\<open>lstat\<close>, \<^verbatim>\<open>opendir\<close>,
  \<^verbatim>\<open>readdir\<close> and \<^verbatim>\<open>closedir\<close>, always on path strings it builds itself. The
  environment is a finite table from path strings to what these calls answer; it does
  not change while the program runs. On the platform of the Makefile (gcc, Linux)
  \<^verbatim>\<open>int\<close> has 32 bits and \<^verbatim>\<open>blkcnt_t\<close> 64 bits; narrowing conversions keep the low
  32 bits and \<^verbatim>\<open>int\<close> addition is taken to wrap.
\<close>

record stat =
  st_blocks :: "64 word"
  st_isdir :: bool

record node =
  n_stat :: stat
  n_entries :: "string list option"
  n_closedir_fails :: bool

type_synonym filesystem = "(string \<times> node) list"

definition lstat :: "filesystem \<Rightarrow> string \<Rightarrow> stat option" where
  "lstat fs p = map_option n_stat (map_of fs p)"

definition opendir :: "filesystem \<Rightarrow> string \<Rightarrow> string list option" where
  "opendir fs p = (case map_of fs p of None \<Rightarrow> None | Some n \<Rightarrow> n_entries n)"

definition closedir_fails :: "filesystem \<Rightarrow> string \<Rightarrow> bool" where
  "closedir_fails fs p = (case map_of fs p of None \<Rightarrow> False | Some n \<Rightarrow> n_closedir_fails n)"

text \<open>\<^verbatim>\<open>sprintf(temp, "%s/%s", file.name, dirent_t->d_name)\<close>\<close>

definition join_path :: "string \<Rightarrow> string \<Rightarrow> string" where
  "join_path p d = p @ ''/'' @ d"

section \<open>Program state\<close>

record dir_info =
  parent_id :: nat
  name :: string

datatype log_msg =
    Unable_to_stat string
  | Cannot_read_directory string
  | Closedir_error

text \<open>
  Program points of a worker, named by the line of \<^verbatim>\<open>mdu.c\<close> whose shared access is the
  next thing the thread does. \<open>L188\<close> is the \<^verbatim>\<open>return\<close> of \<^verbatim>\<open>thread_func\<close>;
  \<open>SEGV\<close> is a read outside \<^verbatim>\<open>available_files\<close>.
\<close>

datatype pc =
    L150 | L151 | L152 | L153 | L154 | L156 | L162 | L163 | L166 | L170
  | L172 | L174 | L178 | L181 | L184 | L188
  | L209 | L219 | L230 | L237 | L287 | L288 | SEGV

record local =
  pc :: pc
  f_dir :: dir_info
  size_v :: "32 word"
  i_idx :: nat
  dir_t :: "string list"
  temp_path :: string
  file_stat :: stat

record state =
  total_sizes :: "32 word list"
  nr_available_files :: int
  exit_status :: int
  done_threads :: "bool list"
  done_flag :: bool
  available_files :: "dir_info list"
  available_lock :: "nat option"
  available_sem :: nat
  stderr_log :: "log_msg list"
  threads :: "local list"

section \<open>The work queue\<close>

text \<open>
  \<^verbatim>\<open>set_available_file\<close> (lines 324-333) and \<^verbatim>\<open>get_available_file\<close> (lines 306-314)
  run between \<^verbatim>\<open>pthread_mutex_lock(&available_lock)\<close> and the matching unlock and
  touch only \<^verbatim>\<open>nr_available_files\<close> and \<^verbatim>\<open>available_files\<close>, which no code reads
  or writes without that lock: each is one atomic step that needs the lock free.
  \<^verbatim>\<open>realloc\<close> to \<open>nr\<close> elements keeps the first \<open>nr - 1\<close>.
\<close>

definition set_available_file :: "dir_info \<Rightarrow> state \<Rightarrow> state" where
  "set_available_file f s =
     s\<lparr>nr_available_files := nr_available_files s + 1,
       available_files := take (nat (nr_available_files s)) (available_files s) @ [f]\<rparr>"

definition sem_post :: "state \<Rightarrow> state" where
  "sem_post s = s\<lparr>available_sem := available_sem s + 1\<rparr>"

definition get_available_file :: "state \<Rightarrow> (dir_info option \<times> state)" where
  "get_available_file s =
     (let n = nr_available_files s - 1;
          s' = s\<lparr>nr_available_files := n\<rparr>
      in if 0 \<le> n \<and> nat n < length (available_files s)
         then (Some (available_files s ! nat n), s')
         else (None, s'))"

definition set_exit_status :: "log_msg \<Rightarrow> state \<Rightarrow> state" where
  "set_exit_status m s = s\<lparr>stderr_log := stderr_log s @ [m], exit_status := 1\<rparr>"

section \<open>The root seeder\<close>

text \<open>
  \<^verbatim>\<open>initialize_files\<close> (lines 406-426). When \<^verbatim>\<open>lstat\<close> fails the function goes on and
  reads \<^verbatim>\<open>file_stat\<close>, which nothing has written: \<open>uninit\<close> stands for what that memory
  holds.
\<close>

definition initialize_files :: "filesystem \<Rightarrow> stat \<Rightarrow> dir_info \<Rightarrow> state \<Rightarrow> state" where
  "initialize_files fs uninit file s =
     (let (st, s1) = (case lstat fs (name file) of
                         None \<Rightarrow> (uninit, set_exit_status (Unable_to_stat (name file)) s)
                       | Some st \<Rightarrow> (st, s));
          s2 = s1\<lparr>total_sizes := (total_sizes s1)[parent_id file :=
                     total_sizes s1 ! parent_id file + ucast (st_blocks st)]\<rparr>
      in if st_isdir st then sem_post (set_available_file file s2) else s2)"

text \<open>The loop of \<^verbatim>\<open>initialize\<close> (lines 375-395) over the paths of the command line.\<close>

fun initialize_loop :: "filesystem \<Rightarrow> (nat \<Rightarrow> stat) \<Rightarrow> nat \<Rightarrow> string list \<Rightarrow> state \<Rightarrow> state" where
  "initialize_loop fs uninit ident [] s = s"
| "initialize_loop fs uninit ident (a # argv) s =
     initialize_loop fs uninit (ident + 1) argv
       (initialize_files fs (uninit ident) \<lparr>parent_id = ident, name = a\<rparr>
          (s\<lparr>total_sizes := take ident (total_sizes s) @ [0]\<rparr>))"

definition initialize :: "filesystem \<Rightarrow> (nat \<Rightarrow> stat) \<Rightarrow> string list \<Rightarrow> nat \<Rightarrow> state" where
  "initialize fs uninit argv thread_max =
     initialize_loop fs uninit 0 argv
       \<lparr>total_sizes = [], nr_available_files = 0, exit_status = 0,
        done_threads = replicate thread_max False, done_flag = False,
        available_files = [], available_lock = None, available_sem = 0,
        stderr_log = [], threads = []\<rparr>"

section \<open>The worker threads\<close>

definition start_local :: local where
  "start_local = \<lparr>pc = L150, f_dir = \<lparr>parent_id = 0, name = []\<rparr>, size_v = 0, i_idx = 0,
     dir_t = [], temp_path = [], file_stat = \<lparr>st_blocks = 0, st_isdir = False\<rparr>\<rparr>"

text \<open>
  \<^verbatim>\<open>run_threads\<close> (lines 109-127): a thread that \<^verbatim>\<open>pthread_create\<close> has not started
  yet has touched nothing, as one that has not been scheduled yet.
\<close>

definition run_threads :: "nat \<Rightarrow> state \<Rightarrow> state" where
  "run_threads thread_amount s = s\<lparr>threads := replicate thread_amount start_local\<rparr>"

definition set_local :: "nat \<Rightarrow> local \<Rightarrow> state \<Rightarrow> state" where
  "set_local t l s = s\<lparr>threads := (threads s)[t := l]\<rparr>"

text \<open>
  One step of worker \<open>t\<close>: \<^verbatim>\<open>thread_func\<close> (lines 139-189) with \<^verbatim>\<open>get_directory_size\<close>
  (lines 200-245) and \<^verbatim>\<open>get_available_file_size\<close> (lines 256-296) inlined. A step is
  one access to shared memory together with the thread's own computation around it; the
  assignments to \<^verbatim>\<open>exit_status\<close> under \<^verbatim>\<open>status_lock\<close> and to \<^verbatim>\<open>total_sizes\<close> under
  \<^verbatim>\<open>size_lock\<close> are one step each. \<open>None\<close>: the thread is blocked (on the mutex or on
  the semaphore) or has returned.
\<close>

definition step :: "filesystem \<Rightarrow> nat \<Rightarrow> state \<Rightarrow> state option" where
  "step fs t s =
    (if length (threads s) \<le> t then None
     else let l = threads s ! t; thread_max = length (threads s) in
      case pc l of
        L150 \<Rightarrow> if available_lock s = None
                then Some (set_local t (l\<lparr>pc := L151\<rparr>) (s\<lparr>available_lock := Some t\<rparr>))
                else None
      | L151 \<Rightarrow> Some (set_local t (l\<lparr>pc := L152\<rparr>)
                        (s\<lparr>done_threads := (done_threads s)[t := True]\<rparr>))
      | L152 \<Rightarrow> Some (set_local t (l\<lparr>pc := (if nr_available_files s = 0 then L153 else L170)\<rparr>) s)
      | L153 \<Rightarrow> Some (set_local t (l\<lparr>pc := L154, i_idx := 0\<rparr>) (s\<lparr>done_flag := True\<rparr>))
      | L154 \<Rightarrow> if i_idx l < thread_max
                then (if done_threads s ! i_idx l = False
                      then Some (set_local t (l\<lparr>pc := L156\<rparr>) s)
                      else Some (set_local t (l\<lparr>i_idx := i_idx l + 1\<rparr>) s))
                else Some (set_local t (l\<lparr>pc := L162\<rparr>) s)
      | L156 \<Rightarrow> Some (set_local t (l\<lparr>pc := L162\<rparr>) (s\<lparr>done_flag := False\<rparr>))
      | L162 \<Rightarrow> if done_flag s
                then Some (set_local t (l\<lparr>pc := L163, i_idx := 0\<rparr>) s)
                else Some (set_local t (l\<lparr>pc := L170\<rparr>) s)
      | L163 \<Rightarrow> if i_idx l < thread_max
                then Some (set_local t (l\<lparr>i_idx := i_idx l + 1\<rparr>) (sem_post s))
                else Some (set_local t (l\<lparr>pc := L166\<rparr>) s)
      | L166 \<Rightarrow> Some (set_local t (l\<lparr>pc := L188\<rparr>) (s\<lparr>available_lock := None\<rparr>))
      | L170 \<Rightarrow> Some (set_local t (l\<lparr>pc := L172\<rparr>) (s\<lparr>available_lock := None\<rparr>))
      | L172 \<Rightarrow> if 0 < available_sem s
                then Some (set_local t (l\<lparr>pc := L174\<rparr>) (s\<lparr>available_sem := available_sem s - 1\<rparr>))
                else None
      | L174 \<Rightarrow> Some (set_local t (l\<lparr>pc := (if done_flag s then L188 else L178)\<rparr>) s)
      | L178 \<Rightarrow> Some (set_local t (l\<lparr>pc := L181\<rparr>)
                        (s\<lparr>done_threads := (done_threads s)[t := False]\<rparr>))
      | L181 \<Rightarrow> if available_lock s = None
                then (case get_available_file s of
                        (Some f, s') \<Rightarrow> Some (set_local t (l\<lparr>pc := L209, f_dir := f\<rparr>) s')
                      | (None, s') \<Rightarrow> Some (set_local t (l\<lparr>pc := SEGV\<rparr>) s'))
                else None
      | L209 \<Rightarrow> (case lstat fs (name (f_dir l)) of
                    None \<Rightarrow> Some (set_local t (l\<lparr>pc := L184, size_v := 0\<rparr>)
                                     (set_exit_status (Unable_to_stat (name (f_dir l))) s))
                  | Some st \<Rightarrow> Some (set_local t (l\<lparr>pc := L219, size_v := 0\<rparr>) s))
      | L219 \<Rightarrow> (case opendir fs (name (f_dir l)) of
                    None \<Rightarrow> Some (set_local t (l\<lparr>pc := L184, size_v := 0\<rparr>)
                                     (set_exit_status (Cannot_read_directory (name (f_dir l))) s))
                  | Some es \<Rightarrow> Some (set_local t (l\<lparr>pc := L230, dir_t := es\<rparr>) s))
      | L230 \<Rightarrow> (case dir_t l of
                    [] \<Rightarrow> Some (set_local t (l\<lparr>pc := L237\<rparr>) s)
                  | d # rest \<Rightarrow>
                      if d = ''.'' \<or> d = ''..''
                      then Some (set_local t (l\<lparr>dir_t := rest\<rparr>) s)
                      else (case lstat fs (join_path (name (f_dir l)) d) of
                              None \<Rightarrow> Some (set_local t
                                        (l\<lparr>dir_t := rest, temp_path := join_path (name (f_dir l)) d\<rparr>)
                                        (set_exit_status (Unable_to_stat (name (f_dir l))) s))
                            | Some st \<Rightarrow>
                                if st_isdir st
                                then Some (set_local t
                                        (l\<lparr>pc := L287, dir_t := rest,
                                           temp_path := join_path (name (f_dir l)) d,
                                           file_stat := st\<rparr>) s)
                                else Some (set_local t
                                        (l\<lparr>dir_t := rest,
                                           temp_path := join_path (name (f_dir l)) d,
                                           file_stat := st,
                                           size_v := size_v l + ucast (st_blocks st)\<rparr>) s)))
      | L287 \<Rightarrow> if available_lock s = None
                then Some (set_local t (l\<lparr>pc := L288\<rparr>)
                        (set_available_file
                           \<lparr>parent_id = parent_id (f_dir l), name = temp_path l\<rparr> s))
                else None
      | L288 \<Rightarrow> Some (set_local t
                        (l\<lparr>pc := L230, size_v := size_v l + ucast (st_blocks (file_stat l))\<rparr>)
                        (sem_post s))
      | L237 \<Rightarrow> Some (set_local t (l\<lparr>pc := L184\<rparr>)
                        (if closedir_fails fs (name (f_dir l))
                         then set_exit_status Closedir_error s else s))
      | L184 \<Rightarrow> Some (set_local t (l\<lparr>pc := L150\<rparr>)
                        (s\<lparr>total_sizes := (total_sizes s)[parent_id (f_dir l) :=
                             total_sizes s ! parent_id (f_dir l) + size_v l]\<rparr>))
      | L188 \<Rightarrow> None
      | SEGV \<Rightarrow> None)"

text \<open>A schedule names the thread that runs next; a blocked thread cannot be scheduled.\<close>

fun exec :: "filesystem \<Rightarrow> nat list \<Rightarrow> state \<Rightarrow> state option" where
  "exec fs [] s = Some s"
| "exec fs (t # sched) s = (case step fs t s of None \<Rightarrow> None | Some s' \<Rightarrow> exec fs sched s')"

definition all_returned :: "state \<Rightarrow> bool" where
  "all_returned s = list_all (\<lambda>l. pc l = L188) (threads s)"

section \<open>The main function\<close>

text \<open>\<^verbatim>\<open>print\<close> (lines 436-442): \<^verbatim>\<open>total_sizes[j] / 2\<close> is C's signed division.\<close>

definition print :: "string list \<Rightarrow> state \<Rightarrow> (int \<times> string) list" where
  "print files s = map (\<lambda>(j, file). (sint (total_sizes s ! j) sdiv 2, file)) (enumerate 0 files)"

text \<open>
  \<^verbatim>\<open>main\<close> (lines 63-98) after option parsing. \<^verbatim>\<open>join_threads\<close> returns once every
  thread has returned, so a run of \<^verbatim>\<open>main\<close> is a schedule that ends with all threads
  at \<open>L188\<close>; for any other schedule there is no result.
\<close>

definition main :: "filesystem \<Rightarrow> (nat \<Rightarrow> stat) \<Rightarrow> string list \<Rightarrow> nat \<Rightarrow> nat list
    \<Rightarrow> ((int \<times> string) list \<times> int) option" where
  "main fs uninit argv thread_amount sched =
     (let s = initialize fs uninit argv thread_amount in
      if 0 < nr_available_files s
      then (case exec fs sched (run_threads thread_amount s) of
              None \<Rightarrow> None
            | Some s' \<Rightarrow> if all_returned s' then Some (print argv s', exit_status s') else None)
      else Some (print argv s, exit_status s))"


section \<open>The sums the specification speaks about\<close>

text \<open>
  The block counts of the entries below a directory, as a sum of integers (no wrap-around):
  every entry of every directory that can be opened, other than the self and parent
  entries, counts with its own \<^verbatim>\<open>st_blocks\<close> when it can be statted, and a
  subdirectory counts with what is below it as well.
\<close>

definition path_bound :: "filesystem \<Rightarrow> nat" where
  "path_bound fs = sum_list (map (\<lambda>e. length (fst e)) fs)"

lemma map_of_path_bound: "map_of fs q = Some n \<Longrightarrow> length q \<le> path_bound fs"
  unfolding path_bound_def by (induction fs) (auto split: if_splits)

lemma lstat_path_bound: "lstat fs q = Some st \<Longrightarrow> length q \<le> path_bound fs"
  unfolding lstat_def by (auto dest: map_of_path_bound)

function tree_blocks :: "filesystem \<Rightarrow> string \<Rightarrow> int" where
  "tree_blocks fs p =
     (case opendir fs p of
        None \<Rightarrow> 0
      | Some es \<Rightarrow>
          (\<Sum>d\<leftarrow>es. if d = ''.'' \<or> d = ''..'' then 0
                  else (case lstat fs (join_path p d) of
                          None \<Rightarrow> 0
                        | Some st \<Rightarrow> sint (st_blocks st) +
                            (if st_isdir st then tree_blocks fs (join_path p d) else 0))))"
  by pat_completeness auto
termination tree_blocks
proof (relation "measure (\<lambda>(fs, p). path_bound fs + 1 - length p)")
  show "wf (measure (\<lambda>(fs, p). path_bound fs + 1 - length p))"
    by simp
next
  fix fs :: filesystem and p :: string and es d st
  assume "lstat fs (join_path p d) = Some st"
  then have "length (join_path p d) \<le> path_bound fs"
    by (rule lstat_path_bound)
  moreover have "length p < length (join_path p d)"
    by (simp add: join_path_def)
  ultimately show "((fs, join_path p d), (fs, p)) \<in> measure (\<lambda>(fs, p). path_bound fs + 1 - length p)"
    by simp
qed

definition root_blocks :: "filesystem \<Rightarrow> string \<Rightarrow> int" where
  "root_blocks fs p =
     (case lstat fs p of
        None \<Rightarrow> 0
      | Some st \<Rightarrow> sint (st_blocks st) + (if st_isdir st then tree_blocks fs p else 0))"


declare tree_blocks.simps [simp del]

text \<open>The state in which the workers start: the seeded state with the threads created.\<close>

definition pool :: "filesystem \<Rightarrow> (nat \<Rightarrow> stat) \<Rightarrow> string list \<Rightarrow> nat \<Rightarrow> state" where
  "pool fs uninit argv thread_amount = run_threads thread_amount (initialize fs uninit argv thread_amount)"

text \<open>What \<^verbatim>\<open>initialize_files\<close> takes for the \<^verbatim>\<open>stat\<close> of a root.\<close>

definition seen_stat :: "filesystem \<Rightarrow> (nat \<Rightarrow> stat) \<Rightarrow> nat \<Rightarrow> string \<Rightarrow> stat" where
  "seen_stat fs uninit ident p = (case lstat fs p of None \<Rightarrow> uninit ident | Some st \<Rightarrow> st)"

definition seen_total :: "filesystem \<Rightarrow> (nat \<Rightarrow> stat) \<Rightarrow> nat \<Rightarrow> string \<Rightarrow> 32 word" where
  "seen_total fs uninit ident p =
     ucast (st_blocks (seen_stat fs uninit ident p)) +
     (if st_isdir (seen_stat fs uninit ident p) then word_of_int (tree_blocks fs p) else 0)"

section \<open>Observing a run\<close>

text \<open>The steps a schedule takes, each as the thread that moves and the state it moves from.\<close>

fun trace :: "filesystem \<Rightarrow> nat list \<Rightarrow> state \<Rightarrow> (nat \<times> state) list" where
  "trace fs [] s = []"
| "trace fs (t # sched) s =
     (case step fs t s of None \<Rightarrow> [] | Some s' \<Rightarrow> (t, s) # trace fs sched s')"

definition at_pc :: "pc \<Rightarrow> nat \<times> state \<Rightarrow> bool" where
  "at_pc p e = (pc (threads (snd e) ! fst e) = p)"

text \<open>
  A worker declares termination when it finds \<^verbatim>\<open>done\<close> set at line 162 and goes on to
  post the wake-up signals.
\<close>

definition declares :: "nat \<times> state \<Rightarrow> bool" where
  "declares e = (at_pc L162 e \<and> done_flag (snd e))"

definition declared :: "filesystem \<Rightarrow> nat list \<Rightarrow> state \<Rightarrow> nat list" where
  "declared fs sched s = map fst (filter declares (trace fs sched s))"

text \<open>
  The items pushed by \<^verbatim>\<open>set_available_file\<close> at line 287, and the items popped at line
  181: what \<^verbatim>\<open>get_available_file\<close> hands to the worker, read from the worker's \<^verbatim>\<open>f\<close> once
  the step is taken.
\<close>

definition pushed :: "filesystem \<Rightarrow> nat list \<Rightarrow> state \<Rightarrow> dir_info list" where
  "pushed fs sched s =
     map (\<lambda>(t, s). \<lparr>parent_id = parent_id (f_dir (threads s ! t)), name = temp_path (threads s ! t)\<rparr>)
       (filter (at_pc L287) (trace fs sched s))"

definition handed :: "filesystem \<Rightarrow> nat \<times> state \<Rightarrow> dir_info list" where
  "handed fs e =
     (if at_pc L181 e
      then (case step fs (fst e) (snd e) of
              None \<Rightarrow> []
            | Some s' \<Rightarrow> if pc (threads s' ! fst e) = L209 then [f_dir (threads s' ! fst e)] else [])
      else [])"

definition popped :: "filesystem \<Rightarrow> nat list \<Rightarrow> state \<Rightarrow> dir_info list" where
  "popped fs sched s = concat (map (handed fs) (trace fs sched s))"

definition posted :: "filesystem \<Rightarrow> nat list \<Rightarrow> state \<Rightarrow> nat" where
  "posted fs sched s = length (filter (at_pc L288) (trace fs sched s))"

definition queue :: "state \<Rightarrow> dir_info list" where
  "queue s = take (nat (nr_available_files s)) (available_files s)"

section \<open>Invariants of the pool\<close>

text \<open>How many threads are at a program point with a given property.\<close>

definition cnt :: "(pc \<Rightarrow> bool) \<Rightarrow> state \<Rightarrow> int" where
  "cnt P s = (\<Sum>l\<leftarrow>threads s. if P (pc l) then 1 else 0)"

text \<open>Holding \<^verbatim>\<open>available_lock\<close> in \<^verbatim>\<open>thread_func\<close> (lines 151-170).\<close>

fun crit :: "pc \<Rightarrow> bool" where
  "crit L151 = True" | "crit L152 = True" | "crit L153 = True" | "crit L154 = True"
| "crit L156 = True" | "crit L162 = True" | "crit L163 = True" | "crit L166 = True"
| "crit L170 = True" | "crit _ = False"

text \<open>The program points at which the thread's entry of \<^verbatim>\<open>done_threads\<close> is false.\<close>

fun busy :: "pc \<Rightarrow> bool" where
  "busy L150 = True" | "busy L151 = True" | "busy L181 = True" | "busy L184 = True"
| "busy L209 = True" | "busy L219 = True" | "busy L230 = True" | "busy L237 = True"
| "busy L287 = True" | "busy L288 = True" | "busy SEGV = True" | "busy _ = False"

text \<open>
  A thread that has taken a signal and not popped yet, or has pushed and not signalled yet.
\<close>

fun tok :: "pc \<Rightarrow> bool" where
  "tok L174 = True" | "tok L178 = True" | "tok L181 = True" | "tok L288 = True"
| "tok _ = False"

fun ending :: "pc \<Rightarrow> bool" where
  "ending L163 = True" | "ending L166 = True" | "ending L188 = True" | "ending _ = False"

fun leaving :: "pc \<Rightarrow> bool" where
  "leaving L163 = True" | "leaving L166 = True" | "leaving L172 = True" | "leaving L174 = True"
| "leaving L188 = True" | "leaving _ = False"

text \<open>
  What the thread that holds the lock knows at each line of its critical section, from the
  values of \<^verbatim>\<open>done\<close>, \<^verbatim>\<open>nr_available_files\<close>, the number of threads,
  \<^verbatim>\<open>done_threads\<close> and the number of busy threads.
\<close>

definition holder_inv :: "bool \<Rightarrow> int \<Rightarrow> nat \<Rightarrow> bool list \<Rightarrow> int \<Rightarrow> local \<Rightarrow> bool" where
  "holder_inv d n k fl b l =
     (case pc l of
        L151 \<Rightarrow> \<not> d
      | L152 \<Rightarrow> \<not> d
      | L153 \<Rightarrow> \<not> d \<and> n = 0
      | L154 \<Rightarrow> d \<and> n = 0 \<and> i_idx l \<le> k \<and> (\<forall>j<i_idx l. fl ! j)
      | L156 \<Rightarrow> d \<and> n = 0 \<and> 0 < b
      | L162 \<Rightarrow> n = 0 \<and> (d = (b = 0))
      | L170 \<Rightarrow> \<not> d \<and> (n \<noteq> 0 \<or> 0 < b)
      | _ \<Rightarrow> False)"

definition running_inv :: "state \<Rightarrow> bool" where
  "running_inv s =
     (int (available_sem s) + cnt tok s = nr_available_files s \<and>
      (case available_lock s of
         None \<Rightarrow> \<not> done_flag s \<and> (nr_available_files s \<noteq> 0 \<or> 0 < cnt busy s)
       | Some h \<Rightarrow> holder_inv (done_flag s) (nr_available_files s) (length (threads s))
                     (done_threads s) (cnt busy s) (threads s ! h)))"

text \<open>
  Once termination is declared: the wake-up signals that the loop of lines 163-165 has
  still to post, less the one the declaring thread does not need.
\<close>

definition owed_of :: "nat \<Rightarrow> local \<Rightarrow> int" where
  "owed_of n l = (if pc l = L163 then int n - 1 - int (i_idx l) else 0)"

definition owed :: "state \<Rightarrow> int" where
  "owed s = sum_list (map (owed_of (length (threads s))) (threads s))"

definition ending_inv :: "state \<Rightarrow> bool" where
  "ending_inv s =
     (done_flag s \<and> nr_available_files s = 0 \<and> cnt leaving s = int (length (threads s)) \<and>
      cnt (\<lambda>p. p = L172) s \<le> int (available_sem s) + owed s)"

definition flags_ok :: "state \<Rightarrow> bool" where
  "flags_ok s = (done_threads s = map (\<lambda>l. \<not> busy (pc l)) (threads s))"

definition lock_ok :: "state \<Rightarrow> bool" where
  "lock_ok s =
     (case available_lock s of
        None \<Rightarrow> cnt crit s = 0
      | Some h \<Rightarrow> h < length (threads s) \<and> crit (pc (threads s ! h)) \<and> cnt crit s = 1)"

definition queue_ok :: "state \<Rightarrow> bool" where
  "queue_ok s = (0 \<le> nr_available_files s \<and> nat (nr_available_files s) \<le> length (available_files s))"

definition pool_inv :: "state \<Rightarrow> bool" where
  "pool_inv s =
     (flags_ok s \<and> lock_ok s \<and> queue_ok s \<and> cnt (\<lambda>p. p = SEGV) s = 0 \<and>
      (if cnt ending s = 0 then running_inv s else ending_inv s))"

section \<open>Counting threads\<close>


lemma sum_list_update_group:
  fixes g :: "'a \<Rightarrow> 'b::ab_group_add"
  shows "t < length xs \<Longrightarrow> (\<Sum>x\<leftarrow>xs[t := y]. g x) = (\<Sum>x\<leftarrow>xs. g x) - g (xs ! t) + g y"
proof (induction xs arbitrary: t)
  case Nil
  then show ?case by simp
next
  case (Cons a xs)
  then show ?case by (cases t) (simp_all add: algebra_simps)
qed

lemma cnt_set_local:
  "t < length (threads s) \<Longrightarrow>
   cnt P (set_local t l s) =
     cnt P s - (if P (pc (threads s ! t)) then 1 else 0) + (if P (pc l) then 1 else 0)"
  unfolding cnt_def set_local_def by (simp add: sum_list_update_group)

lemma cnt_fields [simp]:
  "cnt P (s\<lparr>total_sizes := a\<rparr>) = cnt P s"
  "cnt P (s\<lparr>nr_available_files := b\<rparr>) = cnt P s"
  "cnt P (s\<lparr>exit_status := c\<rparr>) = cnt P s"
  "cnt P (s\<lparr>done_threads := d\<rparr>) = cnt P s"
  "cnt P (s\<lparr>done_flag := e\<rparr>) = cnt P s"
  "cnt P (s\<lparr>available_files := f\<rparr>) = cnt P s"
  "cnt P (s\<lparr>available_lock := g\<rparr>) = cnt P s"
  "cnt P (s\<lparr>available_sem := h\<rparr>) = cnt P s"
  "cnt P (s\<lparr>stderr_log := i\<rparr>) = cnt P s"
  by (simp_all add: cnt_def)

lemma cnt_helpers [simp]:
  "cnt P (sem_post s) = cnt P s"
  "cnt P (set_available_file f s) = cnt P s"
  "cnt P (set_exit_status m s) = cnt P s"
  "cnt P (snd (get_available_file s)) = cnt P s"
  by (simp_all add: cnt_def sem_post_def set_available_file_def set_exit_status_def
      get_available_file_def Let_def)

lemma ind_sum_bounds:
  "0 \<le> (\<Sum>x\<leftarrow>xs. if g x then 1 else (0::int))"
  "(\<Sum>x\<leftarrow>xs. if g x then 1 else (0::int)) \<le> int (length xs)"
  by (induction xs) auto

lemma cnt_ge0: "0 \<le> cnt P s"
  unfolding cnt_def by (rule ind_sum_bounds)

lemma cnt_le: "cnt P s \<le> int (length (threads s))"
  unfolding cnt_def by (rule ind_sum_bounds)

lemma ind_sum_mem:
  "t < length xs \<Longrightarrow> g (xs ! t) \<Longrightarrow> 1 \<le> (\<Sum>x\<leftarrow>xs. if g x then 1 else (0::int))"
proof (induction xs arbitrary: t)
  case Nil
  then show ?case by simp
next
  case (Cons a xs)
  show ?case
  proof (cases t)
    case 0
    with Cons.prems show ?thesis using ind_sum_bounds(1) [of g xs] by simp
  next
    case (Suc k)
    with Cons.prems have "1 \<le> (\<Sum>x\<leftarrow>xs. if g x then 1 else (0::int))"
      by (intro Cons.IH) auto
    then show ?thesis by simp
  qed
qed

lemma cnt_mem: "t < length (threads s) \<Longrightarrow> P (pc (threads s ! t)) \<Longrightarrow> 1 \<le> cnt P s"
  unfolding cnt_def by (rule ind_sum_mem)

lemma cnt_zeroD: "cnt P s = 0 \<Longrightarrow> t < length (threads s) \<Longrightarrow> \<not> P (pc (threads s ! t))"
  using cnt_mem [of t s P] by auto

lemma ind_sum_zeroI:
  "(\<forall>x\<in>set xs. \<not> g x) \<Longrightarrow> (\<Sum>x\<leftarrow>xs. if g x then 1 else (0::int)) = 0"
  by (induction xs) auto

lemma cnt_zeroI: "(\<And>t. t < length (threads s) \<Longrightarrow> \<not> P (pc (threads s ! t))) \<Longrightarrow> cnt P s = 0"
  unfolding cnt_def by (rule ind_sum_zeroI) (auto simp: in_set_conv_nth)

lemma ind_sum_compl:
  "(\<Sum>x\<leftarrow>xs. if g x then 1 else (0::int)) + (\<Sum>x\<leftarrow>xs. if \<not> g x then 1 else 0) = int (length xs)"
  by (induction xs) auto

lemma cnt_compl: "cnt P s + cnt (\<lambda>p. \<not> P p) s = int (length (threads s))"
  unfolding cnt_def by (rule ind_sum_compl)

lemma cnt_fullD:
  assumes "cnt P s = int (length (threads s))" and "t < length (threads s)"
  shows "P (pc (threads s ! t))"
proof -
  from assms(1) cnt_compl [of P s] have "cnt (\<lambda>p. \<not> P p) s = 0" by simp
  from cnt_zeroD [OF this assms(2)] show ?thesis by simp
qed

lemma cnt_fullI:
  assumes "\<And>t. t < length (threads s) \<Longrightarrow> P (pc (threads s ! t))"
  shows "cnt P s = int (length (threads s))"
proof -
  have "cnt (\<lambda>p. \<not> P p) s = 0" by (rule cnt_zeroI) (simp add: assms)
  with cnt_compl [of P s] show ?thesis by simp
qed

lemma cnt_mono: "(\<And>p. P p \<Longrightarrow> Q p) \<Longrightarrow> cnt P s \<le> cnt Q s"
  unfolding cnt_def by (induction "threads s" arbitrary: s) (auto intro!: sum_list_mono)


lemma set_local_simps [simp]:
  "threads (set_local t l s) = (threads s)[t := l]"
  "total_sizes (set_local t l s) = total_sizes s"
  "nr_available_files (set_local t l s) = nr_available_files s"
  "exit_status (set_local t l s) = exit_status s"
  "done_threads (set_local t l s) = done_threads s"
  "done_flag (set_local t l s) = done_flag s"
  "available_files (set_local t l s) = available_files s"
  "available_lock (set_local t l s) = available_lock s"
  "available_sem (set_local t l s) = available_sem s"
  "stderr_log (set_local t l s) = stderr_log s"
  by (simp_all add: set_local_def)


lemma ind_sum_two:
  "t < length xs \<Longrightarrow> u < length xs \<Longrightarrow> t \<noteq> u \<Longrightarrow> g (xs ! t) \<Longrightarrow> g (xs ! u) \<Longrightarrow>
   2 \<le> (\<Sum>x\<leftarrow>xs. if g x then 1 else (0::int))"
proof (induction xs arbitrary: t u)
  case Nil
  then show ?case by simp
next
  case (Cons a xs)
  show ?case
  proof (cases t)
    case 0
    with Cons.prems obtain k where k: "u = Suc k" by (cases u) auto
    with Cons.prems 0 have "1 \<le> (\<Sum>x\<leftarrow>xs. if g x then 1 else (0::int))"
      by (intro ind_sum_mem [of k]) auto
    with Cons.prems 0 show ?thesis by simp
  next
    case (Suc j)
    show ?thesis
    proof (cases u)
      case 0
      with Cons.prems Suc have "1 \<le> (\<Sum>x\<leftarrow>xs. if g x then 1 else (0::int))"
        by (intro ind_sum_mem [of j]) auto
      with Cons.prems 0 show ?thesis by simp
    next
      case (Suc k)
      with Cons.prems \<open>t = Suc j\<close> have "2 \<le> (\<Sum>x\<leftarrow>xs. if g x then 1 else (0::int))"
        by (intro Cons.IH [of j k]) auto
      moreover have "0 \<le> (if g a then 1 else (0::int))" by simp
      ultimately show ?thesis by simp
    qed
  qed
qed

lemma cnt_two:
  "t < length (threads s) \<Longrightarrow> u < length (threads s) \<Longrightarrow> t \<noteq> u \<Longrightarrow>
   P (pc (threads s ! t)) \<Longrightarrow> P (pc (threads s ! u)) \<Longrightarrow> 2 \<le> cnt P s"
  unfolding cnt_def by (rule ind_sum_two)

lemma holderI:
  assumes "lock_ok s" "t < length (threads s)" "crit (pc (threads s ! t))"
  shows "available_lock s = Some t"
proof (cases "available_lock s")
  case None
  with assms(1) have "cnt crit s = 0" by (simp add: lock_ok_def)
  with cnt_mem [OF assms(2), of crit] assms(3) show ?thesis by simp
next
  case (Some h)
  with assms(1) have h: "h < length (threads s)" "crit (pc (threads s ! h))" "cnt crit s = 1"
    by (simp_all add: lock_ok_def)
  have "h = t"
  proof (rule ccontr)
    assume "h \<noteq> t"
    from cnt_two [OF h(1) assms(2) this, of crit] h(2) assms(3) h(3) show False by simp
  qed
  with Some show ?thesis by simp
qed

lemma not_holder:
  assumes "lock_ok s" "\<not> crit (pc (threads s ! t))"
  shows "available_lock s \<noteq> Some t"
  using assms by (auto simp: lock_ok_def)

lemma flags_nth:
  "flags_ok s \<Longrightarrow> u < length (threads s) \<Longrightarrow> done_threads s ! u = (\<not> busy (pc (threads s ! u)))"
  by (simp add: flags_ok_def)

lemma flags_len: "flags_ok s \<Longrightarrow> length (done_threads s) = length (threads s)"
  by (simp add: flags_ok_def)


lemma map_upd_same [simp]:
  "t < length xs \<Longrightarrow> F (xs ! t) = v \<Longrightarrow> (map F xs)[t := v] = map F xs"
  "t < length xs \<Longrightarrow> F (xs ! t) = v \<Longrightarrow> (map F xs = (map F xs)[t := v]) = True"
  by (simp_all add: list_update_same_conv eq_commute [of "map F xs"])

lemma not_ending:
  assumes "pool_inv s" "t < length (threads s)" "\<not> leaving (pc (threads s ! t))"
  shows "cnt ending s = 0" "running_inv s"
proof -
  from assms(2,3) have "cnt leaving s \<noteq> int (length (threads s))"
    using cnt_fullD [of leaving s t] by blast
  with assms(1) show "cnt ending s = 0" "running_inv s"
    by (auto simp: pool_inv_def ending_inv_def split: if_splits)
qed

lemmas inv_defs = pool_inv_def flags_ok_def lock_ok_def queue_ok_def running_inv_def
  ending_inv_def holder_inv_def


lemma owed_set_local:
  "t < length (threads s) \<Longrightarrow>
   owed (set_local t l s) =
     owed s - owed_of (length (threads s)) (threads s ! t) + owed_of (length (threads s)) l"
  unfolding owed_def set_local_def by (simp add: sum_list_update_group)

lemma owed_fields [simp]:
  "owed (s\<lparr>total_sizes := a\<rparr>) = owed s"
  "owed (s\<lparr>nr_available_files := b\<rparr>) = owed s"
  "owed (s\<lparr>exit_status := c\<rparr>) = owed s"
  "owed (s\<lparr>done_threads := d\<rparr>) = owed s"
  "owed (s\<lparr>done_flag := e\<rparr>) = owed s"
  "owed (s\<lparr>available_files := f\<rparr>) = owed s"
  "owed (s\<lparr>available_lock := g\<rparr>) = owed s"
  "owed (s\<lparr>available_sem := h\<rparr>) = owed s"
  "owed (s\<lparr>stderr_log := i\<rparr>) = owed s"
  by (simp_all add: owed_def)

lemma sum_list_all_zero: "(\<forall>x\<in>set xs. f x = (0::int)) \<Longrightarrow> sum_list (map f xs) = 0"
  by (induction xs) auto

lemma owed_zero:
  assumes "cnt ending s = 0"
  shows "owed s = 0"
proof -
  have "\<forall>l\<in>set (threads s). owed_of (length (threads s)) l = 0"
  proof
    fix l assume "l \<in> set (threads s)"
    then obtain u where u: "u < length (threads s)" "threads s ! u = l"
      by (auto simp: in_set_conv_nth)
    from cnt_zeroD [OF assms u(1)] u(2) have "pc l \<noteq> L163" by auto
    then show "owed_of (length (threads s)) l = 0" by (simp add: owed_of_def)
  qed
  then show ?thesis unfolding owed_def by (rule sum_list_all_zero)
qed

lemma inv_L150:
  assumes inv: "pool_inv s" and t: "t < length (threads s)" and pc: "pc (threads s ! t) = L150"
    and free: "available_lock s = None"
  shows "pool_inv (set_local t ((threads s ! t)\<lparr>pc := L151\<rparr>) (s\<lparr>available_lock := Some t\<rparr>))"
proof -
  have run: "cnt ending s = 0" "running_inv s"
    by (rule not_ending [OF inv t], simp add: pc)+
  show ?thesis
    using inv t pc free run
    by (simp add: inv_defs cnt_set_local map_update)
qed


lemma holder_of:
  assumes "pool_inv s" "t < length (threads s)" "crit (pc (threads s ! t))"
  shows "available_lock s = Some t"
  using assms by (intro holderI) (simp_all add: pool_inv_def)

lemma inv_L151:
  assumes inv: "pool_inv s" and t: "t < length (threads s)" and pc: "pc (threads s ! t) = L151"
  shows "pool_inv (set_local t ((threads s ! t)\<lparr>pc := L152\<rparr>)
           (s\<lparr>done_threads := (done_threads s)[t := True]\<rparr>))"
proof -
  have run: "cnt ending s = 0" "running_inv s"
    by (rule not_ending [OF inv t], simp add: pc)+
  have lock: "available_lock s = Some t"
    by (rule holder_of [OF inv t]) (simp add: pc)
  show ?thesis
    using inv t pc lock run
    by (simp add: inv_defs cnt_set_local map_update)
qed

lemma inv_L152:
  assumes inv: "pool_inv s" and t: "t < length (threads s)" and pc: "pc (threads s ! t) = L152"
  shows "pool_inv (set_local t ((threads s ! t)\<lparr>pc := (if nr_available_files s = 0 then L153 else L170)\<rparr>) s)"
proof -
  have run: "cnt ending s = 0" "running_inv s"
    by (rule not_ending [OF inv t], simp add: pc)+
  have lock: "available_lock s = Some t"
    by (rule holder_of [OF inv t]) (simp add: pc)
  show ?thesis
    using inv t pc lock run
    by (simp add: inv_defs cnt_set_local map_update)
qed

lemma inv_L153:
  assumes inv: "pool_inv s" and t: "t < length (threads s)" and pc: "pc (threads s ! t) = L153"
  shows "pool_inv (set_local t ((threads s ! t)\<lparr>pc := L154, i_idx := 0\<rparr>) (s\<lparr>done_flag := True\<rparr>))"
proof -
  have run: "cnt ending s = 0" "running_inv s"
    by (rule not_ending [OF inv t], simp add: pc)+
  have lock: "available_lock s = Some t"
    by (rule holder_of [OF inv t]) (simp add: pc)
  show ?thesis
    using inv t pc lock run
    by (simp add: inv_defs cnt_set_local map_update)
qed

lemma inv_L154_found:
  assumes inv: "pool_inv s" and t: "t < length (threads s)" and pc: "pc (threads s ! t) = L154"
    and i: "i_idx (threads s ! t) < length (threads s)"
    and flag: "\<not> done_threads s ! i_idx (threads s ! t)"
  shows "pool_inv (set_local t ((threads s ! t)\<lparr>pc := L156\<rparr>) s)"
proof -
  have run: "cnt ending s = 0" "running_inv s"
    by (rule not_ending [OF inv t], simp add: pc)+
  have lock: "available_lock s = Some t"
    by (rule holder_of [OF inv t]) (simp add: pc)
  from inv have "flags_ok s" by (simp add: pool_inv_def)
  from flags_nth [OF this i] flag have "busy (pc (threads s ! i_idx (threads s ! t)))" by simp
  from cnt_mem [OF i, of busy, OF this] have busy: "0 < cnt busy s" by simp
  show ?thesis
    using inv t pc lock run busy
    by (simp add: inv_defs cnt_set_local map_update)
qed

lemma inv_L154_next:
  assumes inv: "pool_inv s" and t: "t < length (threads s)" and pc: "pc (threads s ! t) = L154"
    and i: "i_idx (threads s ! t) < length (threads s)"
    and flag: "done_threads s ! i_idx (threads s ! t)"
  shows "pool_inv (set_local t ((threads s ! t)\<lparr>i_idx := i_idx (threads s ! t) + 1\<rparr>) s)"
proof -
  have run: "cnt ending s = 0" "running_inv s"
    by (rule not_ending [OF inv t], simp add: pc)+
  have lock: "available_lock s = Some t"
    by (rule holder_of [OF inv t]) (simp add: pc)
  show ?thesis
    using inv t pc lock run i flag
    by (simp add: inv_defs cnt_set_local map_update less_Suc_eq)
qed

lemma inv_L154_end:
  assumes inv: "pool_inv s" and t: "t < length (threads s)" and pc: "pc (threads s ! t) = L154"
    and i: "\<not> i_idx (threads s ! t) < length (threads s)"
  shows "pool_inv (set_local t ((threads s ! t)\<lparr>pc := L162\<rparr>) s)"
proof -
  have run: "cnt ending s = 0" "running_inv s"
    by (rule not_ending [OF inv t], simp add: pc)+
  have lock: "available_lock s = Some t"
    by (rule holder_of [OF inv t]) (simp add: pc)
  from inv have fl: "flags_ok s" by (simp add: pool_inv_def)
  from run(2) lock pc have all: "\<forall>j<i_idx (threads s ! t). done_threads s ! j"
    by (simp add: running_inv_def holder_inv_def)
  have "cnt busy s = 0"
  proof (rule cnt_zeroI)
    fix u assume u: "u < length (threads s)"
    with i all have "done_threads s ! u" by simp
    with flags_nth [OF fl u] show "\<not> busy (pc (threads s ! u))" by simp
  qed
  then show ?thesis
    using inv t pc lock run
    by (simp add: inv_defs cnt_set_local map_update)
qed

lemma inv_L156:
  assumes inv: "pool_inv s" and t: "t < length (threads s)" and pc: "pc (threads s ! t) = L156"
  shows "pool_inv (set_local t ((threads s ! t)\<lparr>pc := L162\<rparr>) (s\<lparr>done_flag := False\<rparr>))"
proof -
  have run: "cnt ending s = 0" "running_inv s"
    by (rule not_ending [OF inv t], simp add: pc)+
  have lock: "available_lock s = Some t"
    by (rule holder_of [OF inv t]) (simp add: pc)
  show ?thesis
    using inv t pc lock run
    by (simp add: inv_defs cnt_set_local map_update)
qed

lemma inv_L162_no:
  assumes inv: "pool_inv s" and t: "t < length (threads s)" and pc: "pc (threads s ! t) = L162"
    and d: "\<not> done_flag s"
  shows "pool_inv (set_local t ((threads s ! t)\<lparr>pc := L170\<rparr>) s)"
proof -
  have run: "cnt ending s = 0" "running_inv s"
    by (rule not_ending [OF inv t], simp add: pc)+
  have lock: "available_lock s = Some t"
    by (rule holder_of [OF inv t]) (simp add: pc)
  from run(2) lock pc d cnt_ge0 [of busy s] have "0 < cnt busy s"
    by (simp add: running_inv_def holder_inv_def)
  then show ?thesis
    using inv t pc lock run d
    by (simp add: inv_defs cnt_set_local map_update)
qed


lemma cnt_disjoint:
  assumes "\<And>p. P p \<Longrightarrow> \<not> Q p"
  shows "cnt P s + cnt Q s \<le> int (length (threads s))"
proof -
  have "cnt Q s \<le> cnt (\<lambda>p. \<not> P p) s"
    by (rule cnt_mono) (use assms in blast)
  with cnt_compl [of P s] show ?thesis by simp
qed

lemma other_holder:
  assumes "pool_inv s" "available_lock s = Some h" "\<not> crit (pc (threads s ! t))"
  shows "h \<noteq> t" "h < length (threads s)"
  using assms by (auto simp: pool_inv_def lock_ok_def)

lemma holder_inv_busy:
  "holder_inv d n k fl b l \<Longrightarrow> n \<noteq> 0 \<Longrightarrow> holder_inv d n k fl' b' l"
  by (simp add: holder_inv_def split: pc.splits)

lemma holder_inv_done: "holder_inv True n k fl b l \<Longrightarrow> n = 0"
  by (simp add: holder_inv_def split: pc.splits)

lemma tok_nr:
  assumes "running_inv s" "t < length (threads s)" "tok (pc (threads s ! t))"
  shows "1 \<le> nr_available_files s"
proof -
  from cnt_mem [OF assms(2), of tok] assms(3) have "1 \<le> cnt tok s" by simp
  with assms(1) show ?thesis by (simp add: running_inv_def)
qed

lemma running_not_done:
  assumes "running_inv s" "t < length (threads s)" "tok (pc (threads s ! t))"
  shows "\<not> done_flag s"
proof
  assume d: "done_flag s"
  from tok_nr [OF assms] have nr: "1 \<le> nr_available_files s" .
  show False
  proof (cases "available_lock s")
    case None
    with assms(1) d show False by (simp add: running_inv_def)
  next
    case (Some h)
    with assms(1) d have "holder_inv True (nr_available_files s) (length (threads s))
        (done_threads s) (cnt busy s) (threads s ! h)"
      by (simp add: running_inv_def)
    from holder_inv_done [OF this] nr show False by simp
  qed
qed

lemmas inv_defs0 = pool_inv_def flags_ok_def lock_ok_def queue_ok_def running_inv_def
  ending_inv_def

lemma inv_L162_yes:
  assumes inv: "pool_inv s" and t: "t < length (threads s)" and pc: "pc (threads s ! t) = L162"
    and d: "done_flag s"
  shows "pool_inv (set_local t ((threads s ! t)\<lparr>pc := L163, i_idx := 0\<rparr>) s)"
proof -
  let ?s' = "set_local t ((threads s ! t)\<lparr>pc := L163, i_idx := 0\<rparr>) s"
  have run: "cnt ending s = 0" "running_inv s"
    by (rule not_ending [OF inv t], simp add: pc)+
  have lock: "available_lock s = Some t"
    by (rule holder_of [OF inv t]) (simp add: pc)
  from run(2) lock pc d have q: "nr_available_files s = 0" "cnt busy s = 0"
    by (simp_all add: running_inv_def holder_inv_def)
  from run(2) q(1) cnt_ge0 [of tok s] have z: "available_sem s = 0" "cnt tok s = 0"
    by (simp_all add: running_inv_def)
  from inv have lk: "lock_ok s" by (simp add: pool_inv_def)
  have others: "pc (threads s ! u) = L172" if u: "u < length (threads s)" and ne: "u \<noteq> t" for u
  proof -
    have "\<not> busy (pc (threads s ! u))" by (rule cnt_zeroD [OF q(2) u])
    moreover have "\<not> tok (pc (threads s ! u))" by (rule cnt_zeroD [OF z(2) u])
    moreover have "\<not> ending (pc (threads s ! u))" by (rule cnt_zeroD [OF run(1) u])
    moreover have "\<not> crit (pc (threads s ! u))"
      using holderI [OF lk u] lock ne by auto
    ultimately show ?thesis by (cases "pc (threads s ! u)") simp_all
  qed
  have full: "cnt leaving ?s' = int (length (threads ?s'))"
  proof (rule cnt_fullI)
    fix u assume "u < length (threads ?s')"
    then show "leaving (pc (threads ?s' ! u))"
      using others [of u] t by (cases "u = t") simp_all
  qed
  have "cnt (\<lambda>p. p = L172) s + cnt (\<lambda>p. p = L162) s \<le> int (length (threads s))"
    by (rule cnt_disjoint) simp
  moreover have "1 \<le> cnt (\<lambda>p. p = L162) s"
    by (rule cnt_mem [OF t]) (simp add: pc)
  ultimately have w: "cnt (\<lambda>p. p = L172) s + 1 \<le> int (length (threads s))" by simp
  from full have full': "cnt leaving s + 1 = int (length (threads s))"
    using t pc by (simp add: cnt_set_local)
  show ?thesis
    using inv t pc lock run d q z w full' owed_zero [OF run(1)]
    by (simp add: inv_defs0 cnt_set_local owed_set_local owed_of_def map_update)
qed

lemma is_ending:
  assumes "pool_inv s" "t < length (threads s)" "ending (pc (threads s ! t))"
  shows "cnt ending s \<noteq> 0" "ending_inv s"
proof -
  from cnt_mem [OF assms(2), of ending] assms(3) show "cnt ending s \<noteq> 0" by simp
  with assms(1) show "ending_inv s" by (simp add: pool_inv_def)
qed

lemma inv_L163_post:
  assumes inv: "pool_inv s" and t: "t < length (threads s)" and pc: "pc (threads s ! t) = L163"
    and i: "i_idx (threads s ! t) < length (threads s)"
  shows "pool_inv (set_local t ((threads s ! t)\<lparr>i_idx := i_idx (threads s ! t) + 1\<rparr>) (sem_post s))"
proof -
  have e: "cnt ending s \<noteq> 0" "ending_inv s"
    by (rule is_ending [OF inv t], simp add: pc)+
  have lock: "available_lock s = Some t"
    by (rule holder_of [OF inv t]) (simp add: pc)
  show ?thesis
    using inv t pc lock e i
    by (simp add: inv_defs0 cnt_set_local owed_set_local owed_of_def map_update sem_post_def)
qed

lemma inv_L163_end:
  assumes inv: "pool_inv s" and t: "t < length (threads s)" and pc: "pc (threads s ! t) = L163"
    and i: "\<not> i_idx (threads s ! t) < length (threads s)"
  shows "pool_inv (set_local t ((threads s ! t)\<lparr>pc := L166\<rparr>) s)"
proof -
  have e: "cnt ending s \<noteq> 0" "ending_inv s"
    by (rule is_ending [OF inv t], simp add: pc)+
  have lock: "available_lock s = Some t"
    by (rule holder_of [OF inv t]) (simp add: pc)
  show ?thesis
    using inv t pc lock e i
    by (simp add: inv_defs0 cnt_set_local owed_set_local owed_of_def map_update)
qed

lemma inv_L166:
  assumes inv: "pool_inv s" and t: "t < length (threads s)" and pc: "pc (threads s ! t) = L166"
  shows "pool_inv (set_local t ((threads s ! t)\<lparr>pc := L188\<rparr>) (s\<lparr>available_lock := None\<rparr>))"
proof -
  have e: "cnt ending s \<noteq> 0" "ending_inv s"
    by (rule is_ending [OF inv t], simp add: pc)+
  have lock: "available_lock s = Some t"
    by (rule holder_of [OF inv t]) (simp add: pc)
  show ?thesis
    using inv t pc lock e
    by (simp add: inv_defs0 cnt_set_local owed_set_local owed_of_def map_update)
qed

lemma inv_L170:
  assumes inv: "pool_inv s" and t: "t < length (threads s)" and pc: "pc (threads s ! t) = L170"
  shows "pool_inv (set_local t ((threads s ! t)\<lparr>pc := L172\<rparr>) (s\<lparr>available_lock := None\<rparr>))"
proof -
  have run: "cnt ending s = 0" "running_inv s"
    by (rule not_ending [OF inv t], simp add: pc)+
  have lock: "available_lock s = Some t"
    by (rule holder_of [OF inv t]) (simp add: pc)
  show ?thesis
    using inv t pc lock run
    by (simp add: inv_defs cnt_set_local map_update)
qed


lemma flags_ok_fields [simp]:
  "flags_ok (s\<lparr>total_sizes := a\<rparr>) = flags_ok s"
  "flags_ok (s\<lparr>nr_available_files := b\<rparr>) = flags_ok s"
  "flags_ok (s\<lparr>exit_status := c\<rparr>) = flags_ok s"
  "flags_ok (s\<lparr>done_flag := e\<rparr>) = flags_ok s"
  "flags_ok (s\<lparr>available_files := f\<rparr>) = flags_ok s"
  "flags_ok (s\<lparr>available_lock := g\<rparr>) = flags_ok s"
  "flags_ok (s\<lparr>available_sem := h\<rparr>) = flags_ok s"
  "flags_ok (s\<lparr>stderr_log := i\<rparr>) = flags_ok s"
  "flags_ok (sem_post s) = flags_ok s"
  "flags_ok (set_available_file d s) = flags_ok s"
  by (simp_all add: flags_ok_def sem_post_def set_available_file_def)

lemma flags_ok_keep:
  "flags_ok s \<Longrightarrow> t < length (threads s) \<Longrightarrow> busy (pc l) = busy (pc (threads s ! t)) \<Longrightarrow>
   flags_ok (set_local t l s)"
  by (simp add: flags_ok_def map_update)

lemma flags_ok_set:
  "flags_ok s \<Longrightarrow> t < length (threads s) \<Longrightarrow> busy (pc l) = (\<not> v) \<Longrightarrow>
   flags_ok (set_local t l (s\<lparr>done_threads := (done_threads s)[t := v]\<rparr>))"
  by (simp add: flags_ok_def map_update)

lemmas inv_defs1 = pool_inv_def lock_ok_def queue_ok_def running_inv_def ending_inv_def
  flags_ok_keep flags_ok_set

lemma inv_L172:
  assumes inv: "pool_inv s" and t: "t < length (threads s)" and pc: "pc (threads s ! t) = L172"
    and sem: "0 < available_sem s"
  shows "pool_inv (set_local t ((threads s ! t)\<lparr>pc := L174\<rparr>)
           (s\<lparr>available_sem := available_sem s - 1\<rparr>))"
proof -
  from sem have sem': "int (available_sem s - 1) = int (available_sem s) - 1" by simp
  have phase: "cnt ending s = 0 \<and> running_inv s \<or> cnt ending s \<noteq> 0 \<and> ending_inv s"
    using inv by (simp add: pool_inv_def split: if_splits)
  show ?thesis
  proof (cases "available_lock s")
    case None
    from phase show ?thesis
    proof
      assume "cnt ending s = 0 \<and> running_inv s"
      then show ?thesis
        using inv t pc None sem'
        by (simp add: inv_defs1 cnt_set_local map_update)
    next
      assume "cnt ending s \<noteq> 0 \<and> ending_inv s"
      then show ?thesis
        using inv t pc None sem'
        by (simp add: inv_defs1 cnt_set_local owed_set_local owed_of_def map_update)
    qed
  next
    case (Some h)
    have h: "h \<noteq> t" "h < length (threads s)"
      using other_holder [OF inv Some, of t] by (simp_all add: pc)
    from phase show ?thesis
    proof
      assume "cnt ending s = 0 \<and> running_inv s"
      then show ?thesis
        using inv t pc Some sem' h
        by (simp add: inv_defs1 cnt_set_local map_update)
    next
      assume "cnt ending s \<noteq> 0 \<and> ending_inv s"
      then show ?thesis
        using inv t pc Some sem' h
        by (simp add: inv_defs1 cnt_set_local owed_set_local owed_of_def map_update)
    qed
  qed
qed

lemma inv_L174:
  assumes inv: "pool_inv s" and t: "t < length (threads s)" and pc: "pc (threads s ! t) = L174"
  shows "pool_inv (set_local t ((threads s ! t)\<lparr>pc := (if done_flag s then L188 else L178)\<rparr>) s)"
proof (cases "cnt ending s = 0")
  case True
  with inv have run: "running_inv s" by (simp add: pool_inv_def)
  have nd: "\<not> done_flag s"
    by (rule running_not_done [OF run t]) (simp add: pc)
  show ?thesis
  proof (cases "available_lock s")
    case None
    show ?thesis
      using inv t pc None True nd
      by (simp add: inv_defs1 cnt_set_local map_update)
  next
    case (Some h)
    have h: "h \<noteq> t" "h < length (threads s)"
      using other_holder [OF inv Some, of t] by (simp_all add: pc)
    show ?thesis
      using inv t pc Some True nd h
      by (simp add: inv_defs1 cnt_set_local map_update)
  qed
next
  case False
  with inv have e: "ending_inv s" by (simp add: pool_inv_def)
  then have d: "done_flag s" by (simp add: ending_inv_def)
  show ?thesis
  proof (cases "available_lock s")
    case None
    show ?thesis
      using inv t pc None False d cnt_ge0 [of ending s]
      by (simp add: inv_defs1 cnt_set_local owed_set_local owed_of_def map_update)
  next
    case (Some h)
    have h: "h \<noteq> t" "h < length (threads s)"
      using other_holder [OF inv Some, of t] by (simp_all add: pc)
    show ?thesis
      using inv t pc Some False d h cnt_ge0 [of ending s]
      by (simp add: inv_defs1 cnt_set_local owed_set_local owed_of_def map_update)
  qed
qed

lemma inv_L178:
  assumes inv: "pool_inv s" and t: "t < length (threads s)" and pc: "pc (threads s ! t) = L178"
  shows "pool_inv (set_local t ((threads s ! t)\<lparr>pc := L181\<rparr>)
           (s\<lparr>done_threads := (done_threads s)[t := False]\<rparr>))"
proof -
  have run: "cnt ending s = 0" "running_inv s"
    by (rule not_ending [OF inv t], simp add: pc)+
  have nr: "1 \<le> nr_available_files s"
    by (rule tok_nr [OF run(2) t]) (simp add: pc)
  show ?thesis
  proof (cases "available_lock s")
    case None
    show ?thesis
      using inv t pc None run nr cnt_ge0 [of busy s]
      by (simp add: inv_defs1 cnt_set_local map_update)
  next
    case (Some h)
    have h: "h \<noteq> t" "h < length (threads s)"
      using other_holder [OF inv Some, of t] by (simp_all add: pc)
    from run(2) Some have "holder_inv (done_flag s) (nr_available_files s) (length (threads s))
        (done_threads s) (cnt busy s) (threads s ! h)"
      by (simp add: running_inv_def)
    from holder_inv_busy [OF this] nr
    have "holder_inv (done_flag s) (nr_available_files s) (length (threads s))
        ((done_threads s)[t := False]) (cnt busy s + 1) (threads s ! h)"
      by simp
    then show ?thesis
      using inv t pc Some run h
      by (simp add: inv_defs1 cnt_set_local map_update)
  qed
qed

lemma get_available_file_ok:
  assumes "1 \<le> nr_available_files s" "nat (nr_available_files s) \<le> length (available_files s)"
  shows "get_available_file s =
     (Some (available_files s ! nat (nr_available_files s - 1)),
      s\<lparr>nr_available_files := nr_available_files s - 1\<rparr>)"
  using assms by (simp add: get_available_file_def Let_def)

lemma inv_L181:
  assumes inv: "pool_inv s" and t: "t < length (threads s)" and pc: "pc (threads s ! t) = L181"
    and free: "available_lock s = None"
  shows "pool_inv (set_local t ((threads s ! t)\<lparr>pc := L209, f_dir := f\<rparr>)
           (s\<lparr>nr_available_files := nr_available_files s - 1\<rparr>))"
proof -
  have run: "cnt ending s = 0" "running_inv s"
    by (rule not_ending [OF inv t], simp add: pc)+
  have nr: "1 \<le> nr_available_files s"
    by (rule tok_nr [OF run(2) t]) (simp add: pc)
  have b: "1 \<le> cnt busy s"
    by (rule cnt_mem [OF t]) (simp add: pc)
  from inv have "nat (nr_available_files s) \<le> length (available_files s)"
    by (simp add: pool_inv_def queue_ok_def)
  then have q: "nat (nr_available_files s - 1) \<le> length (available_files s)"
    by linarith
  show ?thesis
    using inv t pc free run nr b q
    by (simp add: inv_defs1 cnt_set_local map_update)
qed

lemma inv_L287:
  assumes inv: "pool_inv s" and t: "t < length (threads s)" and pc: "pc (threads s ! t) = L287"
    and free: "available_lock s = None"
  shows "pool_inv (set_local t ((threads s ! t)\<lparr>pc := L288\<rparr>) (set_available_file f s))"
proof -
  have run: "cnt ending s = 0" "running_inv s"
    by (rule not_ending [OF inv t], simp add: pc)+
  show ?thesis
    using inv t pc free run
    by (simp add: inv_defs1 cnt_set_local map_update set_available_file_def)
qed

lemma inv_L288:
  assumes inv: "pool_inv s" and t: "t < length (threads s)" and pc: "pc (threads s ! t) = L288"
  shows "pool_inv (set_local t ((threads s ! t)\<lparr>pc := L230, size_v := v\<rparr>) (sem_post s))"
proof -
  have run: "cnt ending s = 0" "running_inv s"
    by (rule not_ending [OF inv t], simp add: pc)+
  show ?thesis
  proof (cases "available_lock s")
    case None
    show ?thesis
      using inv t pc None run
      by (simp add: inv_defs1 cnt_set_local map_update sem_post_def)
  next
    case (Some h)
    have h: "h \<noteq> t" "h < length (threads s)"
      using other_holder [OF inv Some, of t] by (simp_all add: pc)
    show ?thesis
      using inv t pc Some run h
      by (simp add: inv_defs1 cnt_set_local map_update sem_post_def)
  qed
qed

text \<open>Steps inside the directory expander change nothing the protocol looks at.\<close>

fun expanding :: "pc \<Rightarrow> bool" where
  "expanding L150 = True" | "expanding L184 = True" | "expanding L209 = True"
| "expanding L219 = True" | "expanding L230 = True" | "expanding L237 = True"
| "expanding L287 = True" | "expanding _ = False"

lemma expanding_simps:
  assumes "expanding p"
  shows "busy p" "\<not> crit p" "\<not> tok p" "\<not> ending p" "\<not> leaving p" "p \<noteq> SEGV" "p \<noteq> L172"
    "p \<noteq> L163"
  using assms by (cases p; simp)+

lemma set_exit_status_simps [simp]:
  "threads (set_exit_status m s) = threads s"
  "total_sizes (set_exit_status m s) = total_sizes s"
  "nr_available_files (set_exit_status m s) = nr_available_files s"
  "exit_status (set_exit_status m s) = 1"
  "done_threads (set_exit_status m s) = done_threads s"
  "done_flag (set_exit_status m s) = done_flag s"
  "available_files (set_exit_status m s) = available_files s"
  "available_lock (set_exit_status m s) = available_lock s"
  "available_sem (set_exit_status m s) = available_sem s"
  "stderr_log (set_exit_status m s) = stderr_log s @ [m]"
  by (simp_all add: set_exit_status_def)

lemma sem_post_simps [simp]:
  "threads (sem_post s) = threads s"
  "total_sizes (sem_post s) = total_sizes s"
  "nr_available_files (sem_post s) = nr_available_files s"
  "exit_status (sem_post s) = exit_status s"
  "done_threads (sem_post s) = done_threads s"
  "done_flag (sem_post s) = done_flag s"
  "available_files (sem_post s) = available_files s"
  "available_lock (sem_post s) = available_lock s"
  "available_sem (sem_post s) = available_sem s + 1"
  "stderr_log (sem_post s) = stderr_log s"
  by (simp_all add: sem_post_def)

lemma set_available_file_simps [simp]:
  "threads (set_available_file d s) = threads s"
  "total_sizes (set_available_file d s) = total_sizes s"
  "nr_available_files (set_available_file d s) = nr_available_files s + 1"
  "exit_status (set_available_file d s) = exit_status s"
  "done_threads (set_available_file d s) = done_threads s"
  "done_flag (set_available_file d s) = done_flag s"
  "available_files (set_available_file d s) =
     take (nat (nr_available_files s)) (available_files s) @ [d]"
  "available_lock (set_available_file d s) = available_lock s"
  "available_sem (set_available_file d s) = available_sem s"
  "stderr_log (set_available_file d s) = stderr_log s"
  by (simp_all add: set_available_file_def)

lemma pool_inv_fields [simp]:
  "pool_inv (s\<lparr>total_sizes := a\<rparr>) = pool_inv s"
  "pool_inv (s\<lparr>exit_status := c\<rparr>) = pool_inv s"
  "pool_inv (s\<lparr>stderr_log := i\<rparr>) = pool_inv s"
  "pool_inv (set_exit_status m s) = pool_inv s"
  by (simp_all add: pool_inv_def flags_ok_def lock_ok_def queue_ok_def running_inv_def
      ending_inv_def set_exit_status_def cong: option.case_cong if_cong)

lemma inv_expanding:
  assumes inv: "pool_inv s" and t: "t < length (threads s)"
    and pc: "expanding (pc (threads s ! t))" and pc': "expanding (pc l)"
  shows "pool_inv (set_local t l s)"
proof -
  note old = expanding_simps [OF pc]
  note new = expanding_simps [OF pc']
  have run: "cnt ending s = 0" "running_inv s"
    by (rule not_ending [OF inv t], simp add: old)+
  show ?thesis
  proof (cases "available_lock s")
    case None
    show ?thesis
      using inv t None run old new
      by (simp add: inv_defs1 cnt_set_local)
  next
    case (Some h)
    have h: "h \<noteq> t" "h < length (threads s)"
      using other_holder [OF inv Some, of t] by (simp_all add: old)
    show ?thesis
      using inv t Some run h old new
      by (simp add: inv_defs1 cnt_set_local)
  qed
qed

lemma inv_expanding':
  assumes "pool_inv s" "t < length (threads s)" "expanding (pc (threads s ! t))"
    "expanding (pc l)" "threads s' = threads s" "pool_inv s' = pool_inv s"
  shows "pool_inv (set_local t l s')"
  using inv_expanding [of s' t l] assms by simp

lemma step_in_range: "step fs t s = Some s' \<Longrightarrow> t < length (threads s)"
  by (simp add: step_def split: if_splits)

lemma pool_inv_step:
  assumes inv: "pool_inv s" and st: "step fs t s = Some s'"
  shows "pool_inv s'"
proof -
  from st have t: "t < length (threads s)" by (rule step_in_range)
  note [simp] = step_def Let_def
  show ?thesis
  proof (cases "pc (threads s ! t)")
    case L150
    with st t inv show ?thesis by (auto split: if_splits intro: inv_L150)
  next
    case L151
    with st t inv show ?thesis by (auto intro: inv_L151)
  next
    case L152
    with st t inv inv_L152 [OF inv t] show ?thesis by auto
  next
    case L153
    with st t inv show ?thesis by (auto intro: inv_L153)
  next
    case L154
    with st t inv show ?thesis
      by (auto split: if_splits intro: inv_L154_found inv_L154_next [simplified] inv_L154_end)
  next
    case L156
    with st t inv show ?thesis by (auto intro: inv_L156)
  next
    case L162
    with st t inv show ?thesis by (auto split: if_splits intro: inv_L162_yes inv_L162_no)
  next
    case L163
    with st t inv show ?thesis by (auto split: if_splits intro: inv_L163_post [simplified] inv_L163_end)
  next
    case L166
    with st t inv show ?thesis by (auto intro: inv_L166)
  next
    case L170
    with st t inv show ?thesis by (auto intro: inv_L170)
  next
    case L172
    with st t inv show ?thesis by (auto split: if_splits intro: inv_L172 [simplified])
  next
    case L174
    with st t inv inv_L174 [OF inv t] show ?thesis by auto
  next
    case L178
    with st t inv show ?thesis by (auto intro: inv_L178)
  next
    case L181
    have run: "running_inv s"
      by (rule not_ending [OF inv t]) (simp add: L181)
    have nr: "1 \<le> nr_available_files s"
      by (rule tok_nr [OF run t]) (simp add: L181)
    from inv have "nat (nr_available_files s) \<le> length (available_files s)"
      by (simp add: pool_inv_def queue_ok_def)
    from get_available_file_ok [OF nr this] st t L181 inv show ?thesis
      by (auto split: if_splits intro: inv_L181)
  next
    case L184
    with st t inv show ?thesis by (auto intro!: inv_expanding')
  next
    case L188
    with st t show ?thesis by simp
  next
    case L209
    with st t inv show ?thesis by (auto split: option.splits intro!: inv_expanding')
  next
    case L219
    with st t inv show ?thesis by (auto split: option.splits intro!: inv_expanding')
  next
    case L230
    with st t inv show ?thesis
      by (auto split: option.splits list.splits if_splits intro!: inv_expanding')
  next
    case L237
    with st t inv show ?thesis by (auto intro!: inv_expanding')
  next
    case L287
    with st t inv show ?thesis by (auto split: if_splits intro: inv_L287)
  next
    case L288
    with st t inv show ?thesis by (auto intro: inv_L288)
  next
    case SEGV
    with st t show ?thesis by simp
  qed
qed

section \<open>The pool from its first state on\<close>


definition seeded :: "nat \<Rightarrow> state \<Rightarrow> bool" where
  "seeded k s =
     (threads s = [] \<and> done_threads s = replicate k False \<and> \<not> done_flag s \<and>
      available_lock s = None \<and> nr_available_files s = int (available_sem s) \<and>
      nr_available_files s = int (length (available_files s)))"

lemma seeded_files: "seeded k s \<Longrightarrow> seeded k (initialize_files fs u file s)"
  by (simp add: seeded_def initialize_files_def Let_def split: option.splits prod.splits)

lemma seeded_loop: "seeded k s \<Longrightarrow> seeded k (initialize_loop fs u i argv s)"
proof (induction argv arbitrary: i s)
  case Nil
  then show ?case by simp
next
  case (Cons a argv)
  have "seeded k (s\<lparr>total_sizes := take i (total_sizes s) @ [0]\<rparr>)"
    using Cons.prems by (simp add: seeded_def)
  then show ?case by (simp add: Cons.IH seeded_files)
qed

lemma seeded_initialize: "seeded k (initialize fs u argv k)"
  unfolding initialize_def by (rule seeded_loop) (simp add: seeded_def)

lemma cnt_replicate: "cnt P (s\<lparr>threads := replicate k l\<rparr>) = (if P (pc l) then int k else 0)"
  unfolding cnt_def by (induction k) simp_all

lemma pool_inv_pool:
  assumes "0 < k"
  shows "pool_inv (pool fs u argv k)"
  using seeded_initialize [of k fs u argv] assms
  by (simp add: pool_def run_threads_def seeded_def pool_inv_def flags_ok_def lock_ok_def
      queue_ok_def running_inv_def cnt_replicate start_local_def)

lemma exec_inv: "pool_inv s \<Longrightarrow> exec fs sched s = Some s' \<Longrightarrow> pool_inv s'"
proof (induction sched arbitrary: s)
  case Nil
  then show ?case by simp
next
  case (Cons t sched)
  from Cons.prems(2) obtain s1 where s1: "step fs t s = Some s1" "exec fs sched s1 = Some s'"
    by (auto split: option.splits)
  from pool_inv_step [OF Cons.prems(1) s1(1)] s1(2) show ?case by (rule Cons.IH)
qed

lemma exec_append:
  "exec fs (a @ b) s = (case exec fs a s of None \<Rightarrow> None | Some s' \<Rightarrow> exec fs b s')"
  by (induction a arbitrary: s) (auto split: option.splits)

lemma step_blocked:
  assumes "t < length (threads s)"
  shows "(step fs t s = None) =
     (pc (threads s ! t) = L188 \<or> pc (threads s ! t) = SEGV \<or>
      (pc (threads s ! t) = L150 \<or> pc (threads s ! t) = L181 \<or> pc (threads s ! t) = L287) \<and>
        available_lock s \<noteq> None \<or>
      pc (threads s ! t) = L172 \<and> available_sem s = 0)"
  using assms
  by (cases "pc (threads s ! t)")
    (simp_all add: step_def Let_def split: option.splits list.splits prod.splits)

lemma cnt_pos:
  assumes "0 < cnt P s"
  shows "\<exists>v<length (threads s). P (pc (threads s ! v))"
proof (rule ccontr)
  assume "\<not> ?thesis"
  then have "cnt P s = 0" by (intro cnt_zeroI) auto
  with assms show False by simp
qed

lemma owed_zero_lock:
  assumes "pool_inv s" "available_lock s = None"
  shows "owed s = 0"
proof -
  have "\<forall>l\<in>set (threads s). owed_of (length (threads s)) l = 0"
  proof
    fix l assume "l \<in> set (threads s)"
    then obtain u where u: "u < length (threads s)" "threads s ! u = l"
      by (auto simp: in_set_conv_nth)
    from assms have "cnt crit s = 0" by (simp add: pool_inv_def lock_ok_def)
    from cnt_zeroD [OF this u(1)] u(2) have "pc l \<noteq> L163" by auto
    then show "owed_of (length (threads s)) l = 0" by (simp add: owed_of_def)
  qed
  then show ?thesis unfolding owed_def by (rule sum_list_all_zero)
qed

lemma progress:
  assumes inv: "pool_inv s" and nr: "\<not> all_returned s"
  shows "\<exists>t<length (threads s). step fs t s \<noteq> None"
proof (cases "available_lock s")
  case (Some h)
  with inv have h: "h < length (threads s)" "crit (pc (threads s ! h))"
    by (simp_all add: pool_inv_def lock_ok_def)
  from h(2) have "step fs h s \<noteq> None"
    unfolding step_blocked [OF h(1)] by (cases "pc (threads s ! h)") simp_all
  with h(1) show ?thesis by blast
next
  case None
  from inv None have nocrit: "cnt crit s = 0" and noseg: "cnt (\<lambda>p. p = SEGV) s = 0"
    by (simp_all add: pool_inv_def lock_ok_def)
  have free: "step fs v s \<noteq> None"
    if v: "v < length (threads s)" and p: "pc (threads s ! v) \<noteq> L188" "pc (threads s ! v) \<noteq> L172" for v
  proof -
    from cnt_zeroD [OF noseg v] have "pc (threads s ! v) \<noteq> SEGV" by simp
    with p None show ?thesis unfolding step_blocked [OF v] by simp
  qed
  from nr obtain u where u: "u < length (threads s)" "pc (threads s ! u) \<noteq> L188"
    by (auto simp: all_returned_def list_all_length)
  show ?thesis
  proof (cases "pc (threads s ! u) = L172")
    case False
    with free [OF u] u(1) show ?thesis by blast
  next
    case True
    have w: "1 \<le> cnt (\<lambda>p. p = L172) s" by (rule cnt_mem [OF u(1)]) (simp add: True)
    show ?thesis
    proof (cases "cnt ending s = 0")
      case e: False
      with inv have "ending_inv s" by (simp add: pool_inv_def)
      with w owed_zero_lock [OF inv None] have "0 < available_sem s"
        by (simp add: ending_inv_def)
      with True have "step fs u s \<noteq> None" unfolding step_blocked [OF u(1)] by simp
      with u(1) show ?thesis by blast
    next
      case r: True
      with inv None have run: "int (available_sem s) + cnt tok s = nr_available_files s"
        "nr_available_files s \<noteq> 0 \<or> 0 < cnt busy s"
        by (simp_all add: pool_inv_def running_inv_def)
      show ?thesis
      proof (cases "0 < available_sem s")
        case True
        with \<open>pc (threads s ! u) = L172\<close> have "step fs u s \<noteq> None"
          unfolding step_blocked [OF u(1)] by simp
        with u(1) show ?thesis by blast
      next
        case False
        with run cnt_ge0 [of tok s] have "0 < cnt tok s \<or> 0 < cnt busy s" by auto
        then obtain v where v: "v < length (threads s)"
          "tok (pc (threads s ! v)) \<or> busy (pc (threads s ! v))"
          using cnt_pos [of tok s] cnt_pos [of busy s] by blast
        from cnt_zeroD [OF r v(1)] have "pc (threads s ! v) \<noteq> L188" by auto
        moreover from v(2) have "pc (threads s ! v) \<noteq> L172" by auto
        ultimately have "step fs v s \<noteq> None" by (rule free [OF v(1)])
        with v(1) show ?thesis by blast
      qed
    qed
  qed
qed

section \<open>A bound on the number of steps\<close>


text \<open>
  A bound on the steps that are left. \<open>c\<close> is what one queued directory costs besides its
  entries: the steps from the pop to the next wait on the semaphore.
\<close>

function tree_steps :: "filesystem \<Rightarrow> nat \<Rightarrow> string \<Rightarrow> nat" where
  "tree_steps fs c p =
     (case opendir fs p of
        None \<Rightarrow> 0
      | Some es \<Rightarrow>
          (\<Sum>d\<leftarrow>es. if d = ''.'' \<or> d = ''..'' then 1
                  else (case lstat fs (join_path p d) of
                          None \<Rightarrow> 1
                        | Some st \<Rightarrow>
                            if st_isdir st then 7 + c + tree_steps fs c (join_path p d) else 1)))"
  by pat_completeness auto
termination tree_steps
proof (relation "measure (\<lambda>(fs, c, p). path_bound fs + 1 - length p)")
  show "wf (measure (\<lambda>(fs, c, p). path_bound fs + 1 - length p))"
    by simp
next
  fix fs :: filesystem and c :: nat and p :: string and es d st
  assume "lstat fs (join_path p d) = Some st"
  then have "length (join_path p d) \<le> path_bound fs"
    by (rule lstat_path_bound)
  moreover have "length p < length (join_path p d)"
    by (simp add: join_path_def)
  ultimately show "((fs, c, join_path p d), (fs, c, p))
      \<in> measure (\<lambda>(fs, c, p). path_bound fs + 1 - length p)"
    by simp
qed

declare tree_steps.simps [simp del]

definition entry_steps :: "filesystem \<Rightarrow> nat \<Rightarrow> string \<Rightarrow> string \<Rightarrow> nat" where
  "entry_steps fs c p d =
     (if d = ''.'' \<or> d = ''..'' then 1
      else (case lstat fs (join_path p d) of
              None \<Rightarrow> 1
            | Some st \<Rightarrow> if st_isdir st then 7 + c + tree_steps fs c (join_path p d) else 1))"

definition rho :: "filesystem \<Rightarrow> nat \<Rightarrow> local \<Rightarrow> nat" where
  "rho fs k l =
     (case pc l of
        L150 \<Rightarrow> 6 * k + 9
      | L151 \<Rightarrow> 6 * k + 8
      | L152 \<Rightarrow> 6 * k + 7
      | L153 \<Rightarrow> 6 * k + 6
      | L154 \<Rightarrow> (k - i_idx l) + 5 * k + 5
      | L156 \<Rightarrow> 5 * k + 4
      | L162 \<Rightarrow> 5 * k + 3
      | L163 \<Rightarrow> 5 * (k - i_idx l) + 2
      | L166 \<Rightarrow> 1
      | L170 \<Rightarrow> 1
      | L172 \<Rightarrow> 0
      | L174 \<Rightarrow> 3
      | L178 \<Rightarrow> 2
      | L181 \<Rightarrow> 1
      | L184 \<Rightarrow> 6 * k + 10
      | L188 \<Rightarrow> 0
      | L209 \<Rightarrow> tree_steps fs (6 * k + 15) (name (f_dir l)) + 6 * k + 14
      | L219 \<Rightarrow> tree_steps fs (6 * k + 15) (name (f_dir l)) + 6 * k + 13
      | L230 \<Rightarrow> sum_list (map (entry_steps fs (6 * k + 15) (name (f_dir l))) (dir_t l)) + 6 * k + 12
      | L237 \<Rightarrow> 6 * k + 11
      | L287 \<Rightarrow> sum_list (map (entry_steps fs (6 * k + 15) (name (f_dir l))) (dir_t l)) + 6 * k + 18
                 + (6 * k + 15 + tree_steps fs (6 * k + 15) (temp_path l))
      | L288 \<Rightarrow> sum_list (map (entry_steps fs (6 * k + 15) (name (f_dir l))) (dir_t l)) + 6 * k + 17
      | SEGV \<Rightarrow> 0)"

definition queue_steps :: "filesystem \<Rightarrow> nat \<Rightarrow> dir_info list \<Rightarrow> nat" where
  "queue_steps fs k q = sum_list (map (\<lambda>d. 6 * k + 15 + tree_steps fs (6 * k + 15) (name d)) q)"

definition steps_left :: "filesystem \<Rightarrow> state \<Rightarrow> nat" where
  "steps_left fs s =
     4 * available_sem s + sum_list (map (rho fs (length (threads s))) (threads s)) +
     queue_steps fs (length (threads s)) (queue s)"

lemma tree_steps_entries:
  "tree_steps fs c p =
     (case opendir fs p of None \<Rightarrow> 0 | Some es \<Rightarrow> sum_list (map (entry_steps fs c p) es))"
  unfolding entry_steps_def [abs_def] by (subst tree_steps.simps) simp

lemma sum_list_update_nat:
  fixes g :: "'a \<Rightarrow> nat"
  shows "t < length xs \<Longrightarrow> (\<Sum>x\<leftarrow>xs[t := y]. g x) + g (xs ! t) = (\<Sum>x\<leftarrow>xs. g x) + g y"
proof (induction xs arbitrary: t)
  case Nil
  then show ?case by simp
next
  case (Cons a xs)
  show ?case
  proof (cases t)
    case 0
    then show ?thesis by simp
  next
    case (Suc j)
    with Cons.prems have "(\<Sum>x\<leftarrow>xs[j := y]. g x) + g (xs ! j) = (\<Sum>x\<leftarrow>xs. g x) + g y"
      by (intro Cons.IH) simp
    with Suc show ?thesis by simp
  qed
qed

lemma steps_left_less:
  assumes t: "t < length (threads s)"
    and th: "threads s' = (threads s)[t := l]"
    and less: "4 * available_sem s' + rho fs (length (threads s)) l
                 + queue_steps fs (length (threads s)) (queue s')
               < 4 * available_sem s + rho fs (length (threads s)) (threads s ! t)
                 + queue_steps fs (length (threads s)) (queue s)"
  shows "steps_left fs s' < steps_left fs s"
proof -
  from sum_list_update_nat [OF t, of "rho fs (length (threads s))" l]
  have "sum_list (map (rho fs (length (threads s))) (threads s')) + rho fs (length (threads s)) (threads s ! t)
      = sum_list (map (rho fs (length (threads s))) (threads s)) + rho fs (length (threads s)) l"
    by (simp add: th)
  with less show ?thesis by (simp add: steps_left_def th)
qed

lemma queue_fields [simp]:
  "queue (set_local t l s) = queue s"
  "queue (s\<lparr>total_sizes := a\<rparr>) = queue s"
  "queue (s\<lparr>exit_status := c\<rparr>) = queue s"
  "queue (s\<lparr>done_threads := d\<rparr>) = queue s"
  "queue (s\<lparr>done_flag := e\<rparr>) = queue s"
  "queue (s\<lparr>available_lock := g\<rparr>) = queue s"
  "queue (s\<lparr>available_sem := h\<rparr>) = queue s"
  "queue (s\<lparr>stderr_log := i\<rparr>) = queue s"
  "queue (sem_post s) = queue s"
  "queue (set_exit_status m s) = queue s"
  by (simp_all add: queue_def)

lemma queue_push:
  assumes "queue_ok s"
  shows "queue (set_available_file d s) = queue s @ [d]"
  using assms by (simp add: queue_def queue_ok_def nat_add_distrib)

lemma queue_pop:
  assumes "1 \<le> nr_available_files s" "nat (nr_available_files s) \<le> length (available_files s)"
  shows "queue s = queue (s\<lparr>nr_available_files := nr_available_files s - 1\<rparr>)
                    @ [available_files s ! nat (nr_available_files s - 1)]"
proof -
  from assms have n: "nat (nr_available_files s) = Suc (nat (nr_available_files s - 1))"
    "nat (nr_available_files s - 1) < length (available_files s)"
    by linarith+
  show ?thesis
    unfolding queue_def by (simp add: n take_Suc_conv_app_nth)
qed

lemma steps_left_step:
  assumes inv: "pool_inv s" and st: "step fs t s = Some s'"
  shows "steps_left fs s' < steps_left fs s"
proof -
  from st have t: "t < length (threads s)" by (rule step_in_range)
  from inv have qok: "queue_ok s" by (simp add: pool_inv_def)
  note [simp] = step_def Let_def rho_def queue_steps_def
  show ?thesis
  proof (cases "pc (threads s ! t)")
    case L150
    with st t show ?thesis
      by (auto split: if_splits intro!: steps_left_less [OF t])
  next
    case L151
    with st t show ?thesis by (auto intro!: steps_left_less [OF t])
  next
    case L152
    with st t show ?thesis by (auto intro!: steps_left_less [OF t])
  next
    case L153
    with st t show ?thesis by (auto intro!: steps_left_less [OF t])
  next
    case L154
    with st t show ?thesis by (auto split: if_splits intro!: steps_left_less [OF t])
  next
    case L156
    with st t show ?thesis by (auto intro!: steps_left_less [OF t])
  next
    case L162
    with st t show ?thesis by (auto split: if_splits intro!: steps_left_less [OF t])
  next
    case L163
    with st t show ?thesis by (auto split: if_splits intro!: steps_left_less [OF t])
  next
    case L166
    with st t show ?thesis by (auto intro!: steps_left_less [OF t])
  next
    case L170
    with st t show ?thesis by (auto intro!: steps_left_less [OF t])
  next
    case L172
    with st t show ?thesis by (auto split: if_splits intro!: steps_left_less [OF t])
  next
    case L174
    with st t show ?thesis by (auto intro!: steps_left_less [OF t])
  next
    case L178
    with st t show ?thesis by (auto intro!: steps_left_less [OF t])
  next
    case L181
    have run: "running_inv s"
      by (rule not_ending [OF inv t]) (simp add: L181)
    have nr: "1 \<le> nr_available_files s"
      by (rule tok_nr [OF run t]) (simp add: L181)
    from qok have le: "nat (nr_available_files s) \<le> length (available_files s)"
      by (simp add: queue_ok_def)
    from get_available_file_ok [OF nr le] queue_pop [OF nr le] st t L181 show ?thesis
      by (auto split: if_splits intro!: steps_left_less [OF t])
  next
    case L184
    with st t show ?thesis by (auto intro!: steps_left_less [OF t])
  next
    case L188
    with st t show ?thesis by simp
  next
    case L209
    with st t show ?thesis by (auto split: option.splits intro!: steps_left_less [OF t])
  next
    case L219
    with st t show ?thesis
      by (auto simp: tree_steps_entries split: option.splits intro!: steps_left_less [OF t])
  next
    case L230
    with st t show ?thesis
      by (auto simp: entry_steps_def split: option.splits list.splits if_splits
          intro!: steps_left_less [OF t])
  next
    case L237
    with st t show ?thesis by (auto intro!: steps_left_less [OF t])
  next
    case L287
    with st t queue_push [OF qok] show ?thesis
      by (auto split: if_splits intro!: steps_left_less [OF t])
  next
    case L288
    with st t show ?thesis by (auto intro!: steps_left_less [OF t])
  next
    case SEGV
    with st t show ?thesis by simp
  qed
qed


section \<open>Termination of the pool\<close>


lemma step_threads_length: "step fs t s = Some s' \<Longrightarrow> length (threads s') = length (threads s)"
  by (cases "pc (threads s ! t)")
    (auto simp: step_def Let_def get_available_file_def
      split: if_splits option.splits list.splits)

lemma exec_threads_length: "exec fs sched s = Some s' \<Longrightarrow> length (threads s') = length (threads s)"
proof (induction sched arbitrary: s)
  case Nil
  then show ?case by simp
next
  case (Cons t sched)
  from Cons.prems obtain s1 where s1: "step fs t s = Some s1" "exec fs sched s1 = Some s'"
    by (auto split: option.splits)
  from Cons.IH [OF s1(2)] step_threads_length [OF s1(1)] show ?case by simp
qed

lemma pool_threads_length [simp]: "length (threads (pool fs u argv k)) = k"
  by (simp add: pool_def run_threads_def)

lemma eventually_returns:
  "pool_inv s \<Longrightarrow> \<exists>sched s'. exec fs sched s = Some s' \<and> all_returned s'"
proof (induction "steps_left fs s" arbitrary: s rule: less_induct)
  case less
  show ?case
  proof (cases "all_returned s")
    case True
    then have "exec fs [] s = Some s \<and> all_returned s" by simp
    then show ?thesis by blast
  next
    case False
    from progress [OF less.prems False, of fs] obtain t s1 where s1: "step fs t s = Some s1"
      by auto
    from less.hyps [OF steps_left_step [OF less.prems s1] pool_inv_step [OF less.prems s1]]
    obtain sched s' where "exec fs sched s1 = Some s'" "all_returned s'" by blast
    with s1 have "exec fs (t # sched) s = Some s' \<and> all_returned s'" by simp
    then show ?thesis by blast
  qed
qed

definition scenario_fs :: filesystem where
  "scenario_fs =
    [(''a'', \<lparr>n_stat = \<lparr>st_blocks = 8, st_isdir = True\<rparr>,
             n_entries = Some [''.'', ''..'', ''f'', ''b''], n_closedir_fails = False\<rparr>),
     (''a/f'', \<lparr>n_stat = \<lparr>st_blocks = 8, st_isdir = False\<rparr>,
               n_entries = None, n_closedir_fails = False\<rparr>),
     (''a/b'', \<lparr>n_stat = \<lparr>st_blocks = 8, st_isdir = True\<rparr>,
               n_entries = Some [''.'', ''..'', ''g''], n_closedir_fails = False\<rparr>),
     (''a/b/g'', \<lparr>n_stat = \<lparr>st_blocks = 16, st_isdir = False\<rparr>,
                 n_entries = None, n_closedir_fails = False\<rparr>)]"

definition no_stat :: "nat \<Rightarrow> stat" where
  "no_stat ident = \<lparr>st_blocks = 0, st_isdir = False\<rparr>"



section \<open>Declaring termination\<close>


text \<open>Some worker has declared termination (it is posting, or it has returned).\<close>

definition terminating :: "state \<Rightarrow> bool" where
  "terminating s = (\<exists>l\<in>set (threads s). pc l = L163 \<or> pc l = L166 \<or> pc l = L188)"

lemma ending_iff: "ending p = (p = L163 \<or> p = L166 \<or> p = L188)"
  by (cases p) simp_all

lemma terminating_cnt: "terminating s = (cnt ending s \<noteq> 0)"
proof
  assume "terminating s"
  then obtain u where "u < length (threads s)" "ending (pc (threads s ! u))"
    by (auto simp: terminating_def in_set_conv_nth ending_iff)
  from cnt_mem [of u s ending] this show "cnt ending s \<noteq> 0" by simp
next
  assume "cnt ending s \<noteq> 0"
  with cnt_ge0 [of ending s] have "0 < cnt ending s" by simp
  from cnt_pos [OF this] show "terminating s"
    by (auto simp: terminating_def ending_iff)
qed

lemma trace_Cons:
  "step fs t s = Some s1 \<Longrightarrow> trace fs (t # sched) s = (t, s) # trace fs sched s1"
  by simp

lemma exec_Cons:
  "exec fs (t # sched) s = Some s' \<Longrightarrow> \<exists>s1. step fs t s = Some s1 \<and> exec fs sched s1 = Some s'"
  by (auto split: option.splits)

lemma trace_inv:
  "pool_inv s \<Longrightarrow> (t, s1) \<in> set (trace fs sched s) \<Longrightarrow>
   pool_inv s1 \<and> t < length (threads s1) \<and> length (threads s1) = length (threads s)"
proof (induction sched arbitrary: s)
  case Nil
  then show ?case by simp
next
  case (Cons a sched)
  show ?case
  proof (cases "step fs a s")
    case None
    with Cons.prems show ?thesis by simp
  next
    case (Some s2)
    with Cons.prems(2) have "(t, s1) = (a, s) \<or> (t, s1) \<in> set (trace fs sched s2)" by simp
    then show ?thesis
    proof
      assume "(t, s1) = (a, s)"
      with Cons.prems(1) step_in_range [OF Some] show ?thesis by simp
    next
      assume "(t, s1) \<in> set (trace fs sched s2)"
      from Cons.IH [OF pool_inv_step [OF Cons.prems(1) Some] this] step_threads_length [OF Some]
      show ?thesis by simp
    qed
  qed
qed

lemma declare_state:
  assumes inv: "pool_inv s" and t: "t < length (threads s)" and pc: "pc (threads s ! t) = L162"
    and d: "done_flag s"
  shows "available_lock s = Some t" "nr_available_files s = 0" "available_sem s = 0"
    "\<forall>u<length (threads s). done_threads s ! u"
    "\<forall>u<length (threads s). u \<noteq> t \<longrightarrow> pc (threads s ! u) = L172"
proof -
  have run: "cnt ending s = 0" "running_inv s"
    by (rule not_ending [OF inv t], simp add: pc)+
  show lock: "available_lock s = Some t"
    by (rule holder_of [OF inv t]) (simp add: pc)
  from run(2) lock pc d show q: "nr_available_files s = 0"
    by (simp add: running_inv_def holder_inv_def)
  from run(2) lock pc d have b: "cnt busy s = 0"
    by (simp add: running_inv_def holder_inv_def)
  from run(2) q cnt_ge0 [of tok s] have z: "available_sem s = 0" and z': "cnt tok s = 0"
    by (simp_all add: running_inv_def)
  show "available_sem s = 0" by (rule z)
  from inv have lk: "lock_ok s" and fl: "flags_ok s" by (simp_all add: pool_inv_def)
  show "\<forall>u<length (threads s). done_threads s ! u"
    using flags_nth [OF fl] cnt_zeroD [OF b] by simp
  show "\<forall>u<length (threads s). u \<noteq> t \<longrightarrow> pc (threads s ! u) = L172"
  proof (intro allI impI)
    fix u assume u: "u < length (threads s)" and ne: "u \<noteq> t"
    have "\<not> busy (pc (threads s ! u))" by (rule cnt_zeroD [OF b u])
    moreover have "\<not> tok (pc (threads s ! u))" by (rule cnt_zeroD [OF z' u])
    moreover have "\<not> ending (pc (threads s ! u))" by (rule cnt_zeroD [OF run(1) u])
    moreover have "\<not> crit (pc (threads s ! u))"
      using holderI [OF lk u] lock ne by auto
    ultimately show "pc (threads s ! u) = L172" by (cases "pc (threads s ! u)") simp_all
  qed
qed

lemma ending_mono:
  assumes "step fs t s = Some s'"
  shows "cnt ending s \<le> cnt ending s'"
proof -
  from assms have t: "t < length (threads s)" by (rule step_in_range)
  from assms t show ?thesis
    by (cases "pc (threads s ! t)")
      (auto simp: step_def Let_def get_available_file_def cnt_set_local
        split: if_splits option.splits list.splits)
qed

lemma declares_ending:
  assumes "step fs t s = Some s'" "declares (t, s)"
  shows "cnt ending s' \<noteq> 0"
proof -
  from assms(1) have t: "t < length (threads s)" by (rule step_in_range)
  from assms(2) have pc: "pc (threads s ! t) = L162" "done_flag s"
    by (simp_all add: declares_def at_pc_def)
  from assms(1) t pc have "s' = set_local t ((threads s ! t)\<lparr>pc := L163, i_idx := 0\<rparr>) s"
    by (simp add: step_def Let_def)
  with t have "pc (threads s' ! t) = L163" by simp
  moreover from step_threads_length [OF assms(1)] t have "t < length (threads s')" by simp
  ultimately show ?thesis using cnt_mem [of t s' ending] by simp
qed

lemma ending_not_declares:
  assumes "pool_inv s" "cnt ending s \<noteq> 0" "t < length (threads s)"
  shows "\<not> declares (t, s)"
proof
  assume "declares (t, s)"
  then have "\<not> leaving (pc (threads s ! t))" by (simp add: declares_def at_pc_def)
  from not_ending(1) [OF assms(1,3) this] assms(2) show False by simp
qed

lemma declared_once:
  "pool_inv s \<Longrightarrow>
   length (declared fs sched s) \<le> 1 \<and> (cnt ending s \<noteq> 0 \<longrightarrow> declared fs sched s = [])"
proof (induction sched arbitrary: s)
  case Nil
  then show ?case by (simp add: declared_def)
next
  case (Cons t sched)
  show ?case
  proof (cases "step fs t s")
    case None
    then show ?thesis by (simp add: declared_def)
  next
    case (Some s1)
    note IH = Cons.IH [OF pool_inv_step [OF Cons.prems Some]]
    have unfold: "declared fs (t # sched) s =
        (if declares (t, s) then [t] else []) @ declared fs sched s1"
      using Some by (simp add: declared_def)
    show ?thesis
    proof (cases "declares (t, s)")
      case True
      from declares_ending [OF Some True] IH have "declared fs sched s1 = []" by simp
      moreover from True ending_not_declares [OF Cons.prems _ step_in_range [OF Some]]
      have "cnt ending s = 0" by blast
      ultimately show ?thesis using True unfold by simp
    next
      case False
      moreover have "cnt ending s \<noteq> 0 \<Longrightarrow> cnt ending s1 \<noteq> 0"
        using ending_mono [OF Some] cnt_ge0 [of ending s] by simp
      ultimately show ?thesis using unfold IH by auto
    qed
  qed
qed

definition tiny_fs :: filesystem where
  "tiny_fs = [(''d'', \<lparr>n_stat = \<lparr>st_blocks = 8, st_isdir = True\<rparr>,
                       n_entries = Some [''.'', ''..''], n_closedir_fails = False\<rparr>)]"

text \<open>
  C3. With at least one worker, in every run at most one step declares termination; the
  worker that takes it holds \<^verbatim>\<open>available_lock\<close>, the queue is empty, every entry of
  \<^verbatim>\<open>done_threads\<close> is set and every other worker waits on the semaphore at line 172, so
  none is inside or about to enter \<^verbatim>\<open>set_available_file\<close>.
\<close>

theorem one_declaration:
  assumes "0 < k"
  shows "length (declared fs sched (pool fs uninit argv k)) \<le> 1 \<and>
         (\<forall>e\<in>set (trace fs sched (pool fs uninit argv k)). declares e \<longrightarrow>
            available_lock (snd e) = Some (fst e) \<and>
            nr_available_files (snd e) = 0 \<and> queue (snd e) = [] \<and>
            (\<forall>u<k. done_threads (snd e) ! u) \<and>
            (\<forall>u<k. u \<noteq> fst e \<longrightarrow> pc (threads (snd e) ! u) = L172))"
proof (intro conjI ballI impI)
  from declared_once [OF pool_inv_pool [OF assms]]
  show "length (declared fs sched (pool fs uninit argv k)) \<le> 1" by blast
next
  fix e assume e: "e \<in> set (trace fs sched (pool fs uninit argv k))" and d: "declares e"
  obtain t s where ts: "e = (t, s)" by (cases e)
  from trace_inv [OF pool_inv_pool [OF assms] e [unfolded ts]]
  have inv: "pool_inv s" and t: "t < length (threads s)" and len: "length (threads s) = k"
    by simp_all
  from d ts have pc: "pc (threads s ! t) = L162" and df: "done_flag s"
    by (simp_all add: declares_def at_pc_def)
  note ds = declare_state [OF inv t pc df]
  show "available_lock (snd e) = Some (fst e)" using ds(1) ts by simp
  show "nr_available_files (snd e) = 0" using ds(2) ts by simp
  show "queue (snd e) = []" using ds(2) ts by (simp add: queue_def)
  show "\<forall>u<k. done_threads (snd e) ! u" using ds(4) ts len by simp
  show "\<forall>u<k. u \<noteq> fst e \<longrightarrow> pc (threads (snd e) ! u) = L172" using ds(5) ts len by simp
qed

section \<open>Pushes, pops and signals\<close>


theorem one_declaration_witness:
  "declares (0, the (exec tiny_fs (replicate 21 0) (pool tiny_fs no_stat [''d''] 1))) \<and>
   (0, the (exec tiny_fs (replicate 21 0) (pool tiny_fs no_stat [''d''] 1)))
     \<in> set (trace tiny_fs (replicate 25 0) (pool tiny_fs no_stat [''d''] 1)) \<and>
   available_lock (the (exec tiny_fs (replicate 21 0) (pool tiny_fs no_stat [''d''] 1))) = Some 0 \<and>
   queue (the (exec tiny_fs (replicate 21 0) (pool tiny_fs no_stat [''d''] 1))) = [] \<and>
   length (declared tiny_fs (replicate 25 0) (pool tiny_fs no_stat [''d''] 1)) \<le> 1"
proof -
  let ?e = "(0::nat, the (exec tiny_fs (replicate 21 0) (pool tiny_fs no_stat [''d''] 1)))"
  have k: "(0::nat) < 1" by simp
  have d: "declares ?e" by code_simp
  have m: "?e \<in> set (trace tiny_fs (replicate 25 0) (pool tiny_fs no_stat [''d''] 1))"
    by code_simp
  from one_declaration [OF k, of tiny_fs "replicate 25 0" no_stat "[''d'']"] d m
  show ?thesis by auto
qed


definition pushed_item :: "nat \<times> state \<Rightarrow> dir_info" where
  "pushed_item e =
     \<lparr>parent_id = parent_id (f_dir (threads (snd e) ! fst e)), name = temp_path (threads (snd e) ! fst e)\<rparr>"

lemma pushed_Cons:
  "step fs t s = Some s1 \<Longrightarrow>
   pushed fs (t # sched) s = (if at_pc L287 (t, s) then [pushed_item (t, s)] else []) @ pushed fs sched s1"
  by (simp add: pushed_def pushed_item_def)

lemma popped_Cons:
  "step fs t s = Some s1 \<Longrightarrow> popped fs (t # sched) s = handed fs (t, s) @ popped fs sched s1"
  by (simp add: popped_def)

lemma posted_Cons:
  "step fs t s = Some s1 \<Longrightarrow>
   posted fs (t # sched) s = (if at_pc L288 (t, s) then 1 else 0) + posted fs sched s1"
  by (simp add: posted_def)

lemma step_queue_same:
  assumes "step fs t s = Some s1" "pc (threads s ! t) \<noteq> L181" "pc (threads s ! t) \<noteq> L287"
  shows "queue s1 = queue s"
  using assms
  by (cases "pc (threads s ! t)")
    (auto simp: step_def Let_def split: if_splits option.splits list.splits)

text \<open>A pop takes the last item off the queue and leaves it in the worker's \<^verbatim>\<open>f\<close>.\<close>

lemma pop_step:
  assumes inv: "pool_inv s" and st: "step fs t s = Some s1" and pop: "pc (threads s ! t) = L181"
  shows "pc (threads s1 ! t) = L209" "queue s = queue s1 @ [f_dir (threads s1 ! t)]"
    "handed fs (t, s) = [f_dir (threads s1 ! t)]"
proof -
  from st have t: "t < length (threads s)" by (rule step_in_range)
  from inv have qok: "queue_ok s" by (simp add: pool_inv_def)
  have run: "running_inv s"
    by (rule not_ending [OF inv t]) (simp add: pop)
  have nr: "1 \<le> nr_available_files s"
    by (rule tok_nr [OF run t]) (simp add: pop)
  from qok have le: "nat (nr_available_files s) \<le> length (available_files s)"
    by (simp add: queue_ok_def)
  let ?item = "available_files s ! nat (nr_available_files s - 1)"
  from st t pop get_available_file_ok [OF nr le]
  have s1: "s1 = set_local t ((threads s ! t)\<lparr>pc := L209, f_dir := ?item\<rparr>)
                   (s\<lparr>nr_available_files := nr_available_files s - 1\<rparr>)"
    by (auto simp: step_def Let_def split: if_splits)
  from t show a: "pc (threads s1 ! t) = L209" by (simp add: s1)
  from t have f: "f_dir (threads s1 ! t) = ?item" by (simp add: s1)
  have "queue s1 = queue (s\<lparr>nr_available_files := nr_available_files s - 1\<rparr>)"
    by (simp add: s1)
  with queue_pop [OF nr le] f show "queue s = queue s1 @ [f_dir (threads s1 ! t)]" by simp
  from a pop st show "handed fs (t, s) = [f_dir (threads s1 ! t)]"
    by (simp add: handed_def at_pc_def)
qed

lemma step_queue:
  assumes inv: "pool_inv s" and st: "step fs t s = Some s1"
  shows "mset (queue s) + mset (if at_pc L287 (t, s) then [pushed_item (t, s)] else [])
       = mset (handed fs (t, s)) + mset (queue s1)"
proof -
  from st have t: "t < length (threads s)" by (rule step_in_range)
  from inv have qok: "queue_ok s" by (simp add: pool_inv_def)
  consider (pop) "pc (threads s ! t) = L181" | (push) "pc (threads s ! t) = L287"
    | (other) "pc (threads s ! t) \<noteq> L181" "pc (threads s ! t) \<noteq> L287" by blast
  then show ?thesis
  proof cases
    case pop
    from pop_step [OF inv st pop] pop show ?thesis
      by (simp add: at_pc_def)
  next
    case push
    with st t have "queue s1 = queue (set_available_file (pushed_item (t, s)) s)"
      by (auto simp: step_def Let_def pushed_item_def split: if_splits)
    with queue_push [OF qok] push show ?thesis
      by (simp add: at_pc_def handed_def)
  next
    case other
    with step_queue_same [OF st] show ?thesis by (simp add: at_pc_def handed_def)
  qed
qed

lemma trace_step:
  "e \<in> set (trace fs sched s) \<Longrightarrow> \<exists>s1. step fs (fst e) (snd e) = Some s1"
proof (induction sched arbitrary: s)
  case Nil
  then show ?case by simp
next
  case (Cons t sched)
  then show ?case by (cases "step fs t s") auto
qed

lemma mset_chain:
  fixes a :: "'a multiset"
  assumes "b + p = q + c" and "a + x = y + b"
  shows "a + (x + p) = (y + q) + c"
proof -
  have "a + (x + p) = (a + x) + p" by (simp only: add.assoc)
  also have "\<dots> = (y + b) + p" by (simp only: assms(2))
  also have "\<dots> = y + (b + p)" by (simp only: add.assoc)
  also have "\<dots> = y + (q + c)" by (simp only: assms(1))
  also have "\<dots> = (y + q) + c" by (simp only: add.assoc)
  finally show ?thesis .
qed

lemma exec_queue:
  "pool_inv s \<Longrightarrow> exec fs sched s = Some s' \<Longrightarrow>
   mset (queue s) + mset (pushed fs sched s) = mset (popped fs sched s) + mset (queue s')"
proof (induction sched arbitrary: s)
  case Nil
  then show ?case by (simp add: pushed_def popped_def)
next
  case (Cons t sched)
  from exec_Cons [OF Cons.prems(2)] obtain s1
    where s1: "step fs t s = Some s1" "exec fs sched s1 = Some s'" by blast
  from Cons.IH [OF pool_inv_step [OF Cons.prems(1) s1(1)] s1(2)]
    step_queue [OF Cons.prems(1) s1(1)]
  show ?case
    unfolding pushed_Cons [OF s1(1)] popped_Cons [OF s1(1)] mset_append
    by (rule mset_chain)
qed

lemma step_posted:
  assumes "step fs t s = Some s1"
  shows "(if at_pc L288 (t, s) then 1 else 0) + cnt (\<lambda>p. p = L288) s1
       = (if at_pc L287 (t, s) then 1 else 0) + cnt (\<lambda>p. p = L288) s"
proof -
  from assms have t: "t < length (threads s)" by (rule step_in_range)
  from assms t show ?thesis
    by (cases "pc (threads s ! t)")
      (auto simp: step_def Let_def get_available_file_def cnt_set_local at_pc_def
        split: if_splits option.splits list.splits)
qed

lemma exec_posted:
  "exec fs sched s = Some s' \<Longrightarrow>
   int (posted fs sched s) + cnt (\<lambda>p. p = L288) s'
     = int (length (pushed fs sched s)) + cnt (\<lambda>p. p = L288) s"
proof (induction sched arbitrary: s)
  case Nil
  then show ?case by (simp add: pushed_def posted_def)
next
  case (Cons t sched)
  from exec_Cons [OF Cons.prems] obtain s1
    where s1: "step fs t s = Some s1" "exec fs sched s1 = Some s'" by blast
  from Cons.IH [OF s1(2)] step_posted [OF s1(1)]
  show ?case
    unfolding pushed_Cons [OF s1(1)] posted_Cons [OF s1(1)]
    by (simp split: if_splits)
qed

lemma queue_length:
  assumes "pool_inv s"
  shows "0 \<le> nr_available_files s" "nr_available_files s = int (length (queue s))"
  using assms by (simp_all add: pool_inv_def queue_ok_def queue_def)

definition fork_fs :: filesystem where
  "fork_fs =
    [(''a'', \<lparr>n_stat = \<lparr>st_blocks = 8, st_isdir = True\<rparr>,
             n_entries = Some [''.'', ''..'', ''b'', ''c''], n_closedir_fails = False\<rparr>),
     (''a/b'', \<lparr>n_stat = \<lparr>st_blocks = 8, st_isdir = True\<rparr>,
               n_entries = Some [''.'', ''..''], n_closedir_fails = False\<rparr>),
     (''a/c'', \<lparr>n_stat = \<lparr>st_blocks = 8, st_isdir = True\<rparr>,
               n_entries = Some [''.'', ''..''], n_closedir_fails = False\<rparr>)]"

text \<open>
  C4. In every run with at least one worker \<^verbatim>\<open>nr_available_files\<close> is the length of the
  queue and never negative; every step at line 181 takes the last item off the queue and
  hands that item to the worker, which goes on to expand it; the items seeded and pushed
  so far are, with their multiplicities, the items handed to workers so far and the
  items still queued; and once a worker has declared termination the queue is empty, so
  that every item pushed has been handed to a worker exactly once.
\<close>

theorem no_lost_work:
  assumes "0 < k" and "exec fs sched (pool fs uninit argv k) = Some s"
  shows "0 \<le> nr_available_files s \<and> nr_available_files s = int (length (queue s)) \<and>
         (\<forall>e\<in>set (trace fs sched (pool fs uninit argv k)). at_pc L181 e \<longrightarrow>
            (\<exists>s1. step fs (fst e) (snd e) = Some s1 \<and> pc (threads s1 ! fst e) = L209 \<and>
               queue (snd e) = queue s1 @ [f_dir (threads s1 ! fst e)] \<and>
               handed fs e = [f_dir (threads s1 ! fst e)])) \<and>
         mset (queue (pool fs uninit argv k)) + mset (pushed fs sched (pool fs uninit argv k))
           = mset (popped fs sched (pool fs uninit argv k)) + mset (queue s) \<and>
         (terminating s \<longrightarrow>
            nr_available_files s = 0 \<and>
            mset (queue (pool fs uninit argv k)) + mset (pushed fs sched (pool fs uninit argv k))
              = mset (popped fs sched (pool fs uninit argv k)))"
proof -
  note p = pool_inv_pool [OF assms(1), of fs uninit argv]
  from exec_inv [OF p assms(2)] have inv: "pool_inv s" .
  note q = exec_queue [OF p assms(2)]
  have "nr_available_files s = 0" if "terminating s"
    using that inv by (simp add: terminating_cnt pool_inv_def ending_inv_def)
  moreover from this queue_length(2) [OF inv] have "queue s = []" if "terminating s"
    using that by simp
  moreover have "\<exists>s1. step fs (fst e) (snd e) = Some s1 \<and> pc (threads s1 ! fst e) = L209 \<and>
      queue (snd e) = queue s1 @ [f_dir (threads s1 ! fst e)] \<and>
      handed fs e = [f_dir (threads s1 ! fst e)]"
    if e: "e \<in> set (trace fs sched (pool fs uninit argv k))" and pop: "at_pc L181 e" for e
  proof -
    obtain t x where tx: "e = (t, x)" by (cases e)
    from trace_inv [OF p, of t x fs sched] e tx have x: "pool_inv x" by simp
    from trace_step [OF e] tx obtain s1 where s1: "step fs t x = Some s1" by auto
    from pop tx have "pc (threads x ! t) = L181" by (simp add: at_pc_def)
    from pop_step [OF x s1 this] s1 tx show ?thesis by simp
  qed
  ultimately show ?thesis using queue_length [OF inv] q by simp
qed

theorem no_lost_work_witness:
  "terminating (the (exec fork_fs (replicate 61 0) (pool fork_fs no_stat [''a''] 1))) \<and>
   nr_available_files (the (exec fork_fs (replicate 61 0) (pool fork_fs no_stat [''a''] 1))) = 0 \<and>
   mset (queue (pool fork_fs no_stat [''a''] 1)) +
     mset (pushed fork_fs (replicate 61 0) (pool fork_fs no_stat [''a''] 1))
   = mset (popped fork_fs (replicate 61 0) (pool fork_fs no_stat [''a''] 1)) \<and>
   queue (pool fork_fs no_stat [''a''] 1) = [\<lparr>parent_id = 0, name = ''a''\<rparr>] \<and>
   pushed fork_fs (replicate 61 0) (pool fork_fs no_stat [''a''] 1)
   = [\<lparr>parent_id = 0, name = ''a/b''\<rparr>, \<lparr>parent_id = 0, name = ''a/c''\<rparr>] \<and>
   popped fork_fs (replicate 61 0) (pool fork_fs no_stat [''a''] 1)
   = [\<lparr>parent_id = 0, name = ''a''\<rparr>, \<lparr>parent_id = 0, name = ''a/c''\<rparr>,
      \<lparr>parent_id = 0, name = ''a/b''\<rparr>]"
proof -
  have k: "(0::nat) < 1" by simp
  have "exec fork_fs (replicate 61 0) (pool fork_fs no_stat [''a''] 1) \<noteq> None"
    by code_simp
  then obtain s where s: "exec fork_fs (replicate 61 0) (pool fork_fs no_stat [''a''] 1) = Some s"
    by blast
  have t: "terminating (the (exec fork_fs (replicate 61 0) (pool fork_fs no_stat [''a''] 1)))"
    by code_simp
  have q: "queue (pool fork_fs no_stat [''a''] 1) = [\<lparr>parent_id = 0, name = ''a''\<rparr>]"
    by code_simp
  have pu: "pushed fork_fs (replicate 61 0) (pool fork_fs no_stat [''a''] 1)
      = [\<lparr>parent_id = 0, name = ''a/b''\<rparr>, \<lparr>parent_id = 0, name = ''a/c''\<rparr>]"
    by code_simp
  have p: "popped fork_fs (replicate 61 0) (pool fork_fs no_stat [''a''] 1)
      = [\<lparr>parent_id = 0, name = ''a''\<rparr>, \<lparr>parent_id = 0, name = ''a/c''\<rparr>,
         \<lparr>parent_id = 0, name = ''a/b''\<rparr>]"
    by code_simp
  from no_lost_work [OF k s] s t q pu p show ?thesis by simp
qed

text \<open>A worker that has taken a signal at line 172 and has not popped yet.\<close>

fun taken :: "pc \<Rightarrow> bool" where
  "taken L174 = True" | "taken L178 = True" | "taken L181 = True" | "taken _ = False"

lemma tok_split: "tok p = (taken p \<or> p = L288)" "taken p \<Longrightarrow> p \<noteq> L288"
  by (cases p; simp)+

lemma cnt_tok_split: "cnt tok s = cnt taken s + cnt (\<lambda>p. p = L288) s"
proof -
  have "(\<Sum>l\<leftarrow>xs. if tok (pc l) then 1 else (0::int))
      = (\<Sum>l\<leftarrow>xs. if taken (pc l) then 1 else 0) + (\<Sum>l\<leftarrow>xs. if pc l = L288 then 1 else 0)"
    for xs :: "local list"
    by (induction xs) (auto simp: tok_split)
  then show ?thesis by (simp add: cnt_def)
qed

text \<open>
  C7, as the code has it. In every state of a run in which no worker has declared
  termination yet, the semaphore's value plus the workers that have taken a signal and
  not popped yet plus the workers that have pushed and not signalled yet is the length of
  the queue, so the semaphore never exceeds it; and in every state the signals posted at
  line 288 plus the workers about to post there are the pushes made at line 287.
\<close>

theorem signals_match_queue:
  assumes "0 < k" and "exec fs sched (pool fs uninit argv k) = Some s"
  shows "(\<not> terminating s \<longrightarrow>
            int (available_sem s) + cnt taken s + cnt (\<lambda>p. p = L288) s = int (length (queue s)) \<and>
            available_sem s \<le> length (queue s)) \<and>
         int (posted fs sched (pool fs uninit argv k)) + cnt (\<lambda>p. p = L288) s
           = int (length (pushed fs sched (pool fs uninit argv k)))"
proof -
  note p = pool_inv_pool [OF assms(1), of fs uninit argv]
  from exec_inv [OF p assms(2)] have inv: "pool_inv s" .
  have "cnt (\<lambda>p. p = L288) (pool fs uninit argv k) = 0"
    by (simp add: pool_def run_threads_def cnt_replicate start_local_def)
  with exec_posted [OF assms(2)]
  have post: "int (posted fs sched (pool fs uninit argv k)) + cnt (\<lambda>p. p = L288) s
           = int (length (pushed fs sched (pool fs uninit argv k)))" by simp
  have "int (available_sem s) + cnt taken s + cnt (\<lambda>p. p = L288) s = int (length (queue s)) \<and>
        available_sem s \<le> length (queue s)" if "\<not> terminating s"
  proof -
    from that inv have "int (available_sem s) + cnt tok s = nr_available_files s"
      by (simp add: terminating_cnt pool_inv_def running_inv_def)
    with queue_length(2) [OF inv] cnt_tok_split [of s] cnt_ge0 [of taken s]
      cnt_ge0 [of "\<lambda>p. p = L288" s]
    show ?thesis by simp
  qed
  with post show ?thesis by blast
qed

theorem signals_match_queue_witness:
  "\<not> terminating (the (exec scenario_fs (replicate 15 0) (pool scenario_fs no_stat [''a''] 1))) \<and>
   available_sem (the (exec scenario_fs (replicate 15 0) (pool scenario_fs no_stat [''a''] 1))) = 0 \<and>
   length (queue (the (exec scenario_fs (replicate 15 0) (pool scenario_fs no_stat [''a''] 1)))) = 1 \<and>
   cnt (\<lambda>p. p = L288) (the (exec scenario_fs (replicate 15 0) (pool scenario_fs no_stat [''a''] 1))) = 1 \<and>
   cnt taken (the (exec scenario_fs (replicate 15 0) (pool scenario_fs no_stat [''a''] 1))) = 0 \<and>
   posted scenario_fs (replicate 15 0) (pool scenario_fs no_stat [''a''] 1) = 0 \<and>
   length (pushed scenario_fs (replicate 15 0) (pool scenario_fs no_stat [''a''] 1)) = 1"
proof -
  have k: "(0::nat) < 1" by simp
  have "exec scenario_fs (replicate 15 0) (pool scenario_fs no_stat [''a''] 1) \<noteq> None"
    by code_simp
  then obtain s where s: "exec scenario_fs (replicate 15 0) (pool scenario_fs no_stat [''a''] 1) = Some s"
    by blast
  have t: "\<not> terminating (the (exec scenario_fs (replicate 15 0) (pool scenario_fs no_stat [''a''] 1)))"
    by code_simp
  have a: "available_sem (the (exec scenario_fs (replicate 15 0) (pool scenario_fs no_stat [''a''] 1))) = 0"
    by code_simp
  have c: "cnt (\<lambda>p. p = L288) (the (exec scenario_fs (replicate 15 0) (pool scenario_fs no_stat [''a''] 1))) = 1"
    by code_simp
  have p: "posted scenario_fs (replicate 15 0) (pool scenario_fs no_stat [''a''] 1) = 0"
    by code_simp
  have tk: "cnt taken (the (exec scenario_fs (replicate 15 0) (pool scenario_fs no_stat [''a''] 1))) = 0"
    by code_simp
  from signals_match_queue [OF k s] t a c p s tk show ?thesis by auto
qed

text \<open>
  C7 as stated fails: after the push of \<^verbatim>\<open>a/b\<close> and before its signal the queue holds one
  item and the semaphore is 0, and when all workers have returned the queue is empty and
  the semaphore is 1.
\<close>

theorem semaphore_is_not_queue_length:
  "exec scenario_fs (replicate 15 0) (pool scenario_fs no_stat [''a''] 1) \<noteq> None \<and>
   available_sem (the (exec scenario_fs (replicate 15 0) (pool scenario_fs no_stat [''a''] 1))) = 0 \<and>
   queue (the (exec scenario_fs (replicate 15 0) (pool scenario_fs no_stat [''a''] 1)))
     = [\<lparr>parent_id = 0, name = ''a/b''\<rparr>] \<and>
   exec scenario_fs (replicate 45 0) (pool scenario_fs no_stat [''a''] 1) \<noteq> None \<and>
   available_sem (the (exec scenario_fs (replicate 45 0) (pool scenario_fs no_stat [''a''] 1))) = 1 \<and>
   queue (the (exec scenario_fs (replicate 45 0) (pool scenario_fs no_stat [''a''] 1))) = []"
  by code_simp

section \<open>What each root is owed\<close>


definition entry_blocks :: "filesystem \<Rightarrow> string \<Rightarrow> string \<Rightarrow> int" where
  "entry_blocks fs p d =
     (if d = ''.'' \<or> d = ''..'' then 0
      else (case lstat fs (join_path p d) of
              None \<Rightarrow> 0
            | Some st \<Rightarrow> sint (st_blocks st) +
                (if st_isdir st then tree_blocks fs (join_path p d) else 0)))"

lemma tree_blocks_entries:
  "tree_blocks fs p =
     (case opendir fs p of None \<Rightarrow> 0 | Some es \<Rightarrow> sum_list (map (entry_blocks fs p) es))"
  unfolding entry_blocks_def [abs_def] by (subst tree_blocks.simps) simp

lemma lstat_None_opendir: "lstat fs p = None \<Longrightarrow> opendir fs p = None"
  by (simp add: lstat_def opendir_def)

lemma tree_blocks_no_dir: "opendir fs p = None \<Longrightarrow> tree_blocks fs p = 0"
  by (simp add: tree_blocks_entries)

lemma ucast_blocks: "(ucast (b :: 64 word) :: 32 word) = scast b"
  by (simp add: down_cast_same is_down)

lemma sum_list_zero:
  fixes f :: "'a \<Rightarrow> 'b::comm_monoid_add"
  shows "(\<forall>x\<in>set xs. f x = 0) \<Longrightarrow> sum_list (map f xs) = 0"
  by (induction xs) auto

text \<open>
  What a worker still has to add to the total of its directory's root: the local total it
  carries and the entries it has not read yet, with all that is below them.
\<close>

definition pend :: "filesystem \<Rightarrow> local \<Rightarrow> 32 word" where
  "pend fs l =
     (case pc l of
        L209 \<Rightarrow> word_of_int (tree_blocks fs (name (f_dir l)))
      | L219 \<Rightarrow> size_v l + word_of_int (tree_blocks fs (name (f_dir l)))
      | L230 \<Rightarrow> size_v l + word_of_int (sum_list (map (entry_blocks fs (name (f_dir l))) (dir_t l)))
      | L287 \<Rightarrow> size_v l + ucast (st_blocks (file_stat l))
                 + word_of_int (tree_blocks fs (temp_path l))
                 + word_of_int (sum_list (map (entry_blocks fs (name (f_dir l))) (dir_t l)))
      | L288 \<Rightarrow> size_v l + ucast (st_blocks (file_stat l))
                 + word_of_int (sum_list (map (entry_blocks fs (name (f_dir l))) (dir_t l)))
      | L237 \<Rightarrow> size_v l
      | L184 \<Rightarrow> size_v l
      | _ \<Rightarrow> 0)"

definition lpend :: "filesystem \<Rightarrow> nat \<Rightarrow> local \<Rightarrow> 32 word" where
  "lpend fs r l = (if parent_id (f_dir l) = r then pend fs l else 0)"

definition qsum :: "filesystem \<Rightarrow> nat \<Rightarrow> dir_info list \<Rightarrow> 32 word" where
  "qsum fs r q = (\<Sum>d\<leftarrow>q. if parent_id d = r then word_of_int (tree_blocks fs (name d)) else 0)"

definition owing :: "filesystem \<Rightarrow> nat \<Rightarrow> state \<Rightarrow> 32 word" where
  "owing fs r s = total_sizes s ! r + qsum fs r (queue s) + sum_list (map (lpend fs r) (threads s))"

definition locals_ok :: "state \<Rightarrow> bool" where
  "locals_ok s = (\<forall>l\<in>set (threads s). pc l = L219 \<longrightarrow> size_v l = 0)"

lemma locals_ok_update:
  assumes "locals_ok s" "threads s' = (threads s)[t := l]" "pc l = L219 \<longrightarrow> size_v l = 0"
  shows "locals_ok s'"
  using assms set_update_subset_insert [of "threads s" t l]
  by (auto simp: locals_ok_def)

lemma locals_ok_step:
  assumes "locals_ok s" "step fs t s = Some s'"
  shows "locals_ok s'"
proof -
  from assms(2) have t: "t < length (threads s)" by (rule step_in_range)
  have own: "pc (threads s ! t) = L219 \<Longrightarrow> size_v (threads s ! t) = 0"
    using assms(1) t by (auto simp: locals_ok_def)
  from assms(2) t own show ?thesis
    by (cases "pc (threads s ! t)")
      (auto simp: step_def Let_def get_available_file_def
        split: if_splits option.splits list.splits
        intro!: locals_ok_update [OF assms(1)])
qed

lemma owing_eq:
  assumes t: "t < length (threads s)"
    and th: "threads s' = (threads s)[t := l]"
    and eq: "total_sizes s' ! r + qsum fs r (queue s') + lpend fs r l
           = total_sizes s ! r + qsum fs r (queue s) + lpend fs r (threads s ! t)"
  shows "owing fs r s' = owing fs r s"
proof -
  have "sum_list (map (lpend fs r) (threads s'))
      = sum_list (map (lpend fs r) (threads s)) - lpend fs r (threads s ! t) + lpend fs r l"
    unfolding th by (rule sum_list_update_group [OF t])
  then have "owing fs r s'
      = (total_sizes s' ! r + qsum fs r (queue s') + lpend fs r l)
        + (sum_list (map (lpend fs r) (threads s)) - lpend fs r (threads s ! t))"
    by (simp add: owing_def)
  also have "\<dots> = (total_sizes s ! r + qsum fs r (queue s) + lpend fs r (threads s ! t))
        + (sum_list (map (lpend fs r) (threads s)) - lpend fs r (threads s ! t))"
    by (simp only: eq)
  also have "\<dots> = owing fs r s"
    by (simp add: owing_def)
  finally show ?thesis .
qed

lemma qsum_append [simp]: "qsum fs r (q @ q') = qsum fs r q + qsum fs r q'"
  by (simp add: qsum_def)

lemma owing_step:
  assumes inv: "pool_inv s" and lok: "locals_ok s" and st: "step fs t s = Some s'"
    and r: "r < length (total_sizes s)"
  shows "owing fs r s' = owing fs r s"
proof -
  from st have t: "t < length (threads s)" by (rule step_in_range)
  from inv have qok: "queue_ok s" by (simp add: pool_inv_def)
  have own: "pc (threads s ! t) = L219 \<Longrightarrow> size_v (threads s ! t) = 0"
    using lok t by (auto simp: locals_ok_def)
  note [simp] = step_def Let_def lpend_def pend_def
  show ?thesis
  proof (cases "pc (threads s ! t)")
    case L150
    with st t show ?thesis by (auto split: if_splits intro!: owing_eq [OF t])
  next
    case L151
    with st t show ?thesis by (auto intro!: owing_eq [OF t])
  next
    case L152
    with st t show ?thesis by (auto intro!: owing_eq [OF t])
  next
    case L153
    with st t show ?thesis by (auto intro!: owing_eq [OF t])
  next
    case L154
    with st t show ?thesis by (auto split: if_splits intro!: owing_eq [OF t])
  next
    case L156
    with st t show ?thesis by (auto intro!: owing_eq [OF t])
  next
    case L162
    with st t show ?thesis by (auto split: if_splits intro!: owing_eq [OF t])
  next
    case L163
    with st t show ?thesis by (auto split: if_splits intro!: owing_eq [OF t])
  next
    case L166
    with st t show ?thesis by (auto intro!: owing_eq [OF t])
  next
    case L170
    with st t show ?thesis by (auto intro!: owing_eq [OF t])
  next
    case L172
    with st t show ?thesis by (auto split: if_splits intro!: owing_eq [OF t])
  next
    case L174
    with st t show ?thesis by (auto intro!: owing_eq [OF t])
  next
    case L178
    with st t show ?thesis by (auto intro!: owing_eq [OF t])
  next
    case L181
    have run: "running_inv s"
      by (rule not_ending [OF inv t]) (simp add: L181)
    have nr: "1 \<le> nr_available_files s"
      by (rule tok_nr [OF run t]) (simp add: L181)
    from qok have le: "nat (nr_available_files s) \<le> length (available_files s)"
      by (simp add: queue_ok_def)
    from get_available_file_ok [OF nr le] queue_pop [OF nr le] st t L181 show ?thesis
      by (auto simp: qsum_def split: if_splits intro!: owing_eq [OF t])
  next
    case L184
    with st t r show ?thesis by (auto simp: nth_list_update intro!: owing_eq [OF t])
  next
    case L188
    with st t show ?thesis by simp
  next
    case L209
    with st t show ?thesis
      by (auto simp: tree_blocks_no_dir lstat_None_opendir split: option.splits
          intro!: owing_eq [OF t])
  next
    case L219
    with st t own show ?thesis
      by (auto simp: tree_blocks_entries split: option.splits intro!: owing_eq [OF t])
  next
    case L230
    with st t show ?thesis
      by (auto simp: entry_blocks_def ucast_blocks split: option.splits list.splits if_splits
          intro!: owing_eq [OF t])
  next
    case L237
    with st t show ?thesis by (auto intro!: owing_eq [OF t])
  next
    case L287
    with st t queue_push [OF qok] show ?thesis
      by (auto simp: qsum_def split: if_splits intro!: owing_eq [OF t])
  next
    case L288
    with st t show ?thesis by (auto intro!: owing_eq [OF t])
  next
    case SEGV
    with st t show ?thesis by simp
  qed
qed

lemma step_totals_length:
  "step fs t s = Some s' \<Longrightarrow> length (total_sizes s') = length (total_sizes s)"
  by (cases "pc (threads s ! t)")
    (auto simp: step_def Let_def get_available_file_def
      split: if_splits option.splits list.splits)

lemma owing_exec:
  "pool_inv s \<Longrightarrow> locals_ok s \<Longrightarrow> exec fs sched s = Some s' \<Longrightarrow> r < length (total_sizes s) \<Longrightarrow>
   owing fs r s' = owing fs r s \<and> length (total_sizes s') = length (total_sizes s)"
proof (induction sched arbitrary: s)
  case Nil
  then show ?case by simp
next
  case (Cons t sched)
  from exec_Cons [OF Cons.prems(3)] obtain s1
    where s1: "step fs t s = Some s1" "exec fs sched s1 = Some s'" by blast
  from Cons.prems(4) step_totals_length [OF s1(1)] have r1: "r < length (total_sizes s1)" by simp
  from Cons.IH [OF pool_inv_step [OF Cons.prems(1) s1(1)] locals_ok_step [OF Cons.prems(2) s1(1)]
      s1(2) r1]
    owing_step [OF Cons.prems(1,2) s1(1) Cons.prems(4)] step_totals_length [OF s1(1)]
  show ?case by simp
qed

lemma owing_returned:
  assumes "pool_inv s" "all_returned s" "threads s \<noteq> []"
  shows "owing fs r s = total_sizes s ! r"
proof -
  have "\<forall>l\<in>set (threads s). lpend fs r l = 0"
    using assms(2) by (auto simp: all_returned_def list_all_iff lpend_def pend_def)
  then have z: "sum_list (map (lpend fs r) (threads s)) = 0"
    by (rule sum_list_zero)
  from assms(2,3) have "terminating s"
    by (cases "threads s") (auto simp: all_returned_def terminating_def)
  with assms(1) have "nr_available_files s = 0"
    by (simp add: terminating_cnt pool_inv_def ending_inv_def)
  then have "queue s = []" by (simp add: queue_def)
  with z show ?thesis by (simp add: owing_def qsum_def)
qed


lemma qsum_below:
  "(\<forall>d\<in>set q. parent_id d < n) \<Longrightarrow> qsum fs n q = 0"
  unfolding qsum_def by (rule sum_list_zero) auto

definition seed_ok :: "filesystem \<Rightarrow> (nat \<Rightarrow> stat) \<Rightarrow> string list \<Rightarrow> state \<Rightarrow> bool" where
  "seed_ok fs u pre s =
     (length (total_sizes s) = length pre \<and>
      nr_available_files s = int (length (available_files s)) \<and>
      (\<forall>d\<in>set (available_files s). parent_id d < length pre) \<and>
      (\<forall>r<length pre. total_sizes s ! r + qsum fs r (available_files s) = seen_total fs u r (pre ! r)))"

lemma seed_ok_files:
  assumes "seed_ok fs u pre s"
  shows "seed_ok fs u (pre @ [a])
           (initialize_files fs (u (length pre)) \<lparr>parent_id = length pre, name = a\<rparr>
              (s\<lparr>total_sizes := take (length pre) (total_sizes s) @ [0]\<rparr>))"
proof -
  let ?n = "length pre"
  let ?st = "seen_stat fs u ?n a"
  from assms have len: "length (total_sizes s) = ?n"
    and nr: "nr_available_files s = int (length (available_files s))"
    and below: "\<forall>d\<in>set (available_files s). parent_id d < ?n"
    and old: "\<forall>r<?n. total_sizes s ! r + qsum fs r (available_files s) = seen_total fs u r (pre ! r)"
    by (simp_all add: seed_ok_def)
  let ?s' = "initialize_files fs (u ?n) \<lparr>parent_id = ?n, name = a\<rparr>
              (s\<lparr>total_sizes := take ?n (total_sizes s) @ [0]\<rparr>)"
  have ts: "total_sizes ?s' = total_sizes s @ [ucast (st_blocks ?st)]"
    by (simp add: initialize_files_def seen_stat_def Let_def nth_append len [symmetric]
        split: option.splits)
  have af: "available_files ?s' =
      (if st_isdir ?st then available_files s @ [\<lparr>parent_id = ?n, name = a\<rparr>] else available_files s)"
    using nr
    by (simp add: initialize_files_def seen_stat_def Let_def split: option.splits)
  have nr': "nr_available_files ?s' = int (length (available_files ?s'))"
    unfolding af using nr
    by (simp add: initialize_files_def seen_stat_def Let_def split: option.splits)
  have below': "\<forall>d\<in>set (available_files ?s'). parent_id d < length (pre @ [a])"
    unfolding af using below by (auto simp: less_Suc_eq)
  have tot: "total_sizes ?s' ! r + qsum fs r (available_files ?s') = seen_total fs u r ((pre @ [a]) ! r)"
    if r: "r < length (pre @ [a])" for r
  proof (cases "r < ?n")
    case True
    with old have "total_sizes s ! r + qsum fs r (available_files s) = seen_total fs u r (pre ! r)"
      by simp
    with True len show ?thesis
      unfolding ts af by (simp add: nth_append qsum_def)
  next
    case False
    with r have rn: "r = ?n" by simp
    from qsum_below [OF below] have "qsum fs ?n (available_files s) = 0" .
    with len show ?thesis
      unfolding ts af rn by (simp add: nth_append seen_total_def qsum_def)
  qed
  have len': "length (total_sizes ?s') = length (pre @ [a])"
    unfolding ts using len by simp
  show ?thesis
    unfolding seed_ok_def using len' nr' below' tot by blast
qed

lemma seed_ok_loop:
  "seed_ok fs u pre s \<Longrightarrow> seed_ok fs u (pre @ argv) (initialize_loop fs u (length pre) argv s)"
proof (induction argv arbitrary: pre s)
  case Nil
  then show ?case by simp
next
  case (Cons a argv)
  from Cons.IH [OF seed_ok_files [OF Cons.prems, of a]] show ?case by simp
qed

lemma seed_ok_initialize: "seed_ok fs u argv (initialize fs u argv k)"
proof -
  let ?s = "\<lparr>total_sizes = [], nr_available_files = 0, exit_status = 0,
        done_threads = replicate k False, done_flag = False,
        available_files = [], available_lock = None, available_sem = 0,
        stderr_log = [], threads = []\<rparr>"
  have "seed_ok fs u [] ?s" by (simp add: seed_ok_def)
  from seed_ok_loop [OF this, of argv] show ?thesis by (simp add: initialize_def)
qed

lemma exec_totals_length:
  "exec fs sched s = Some s' \<Longrightarrow> length (total_sizes s') = length (total_sizes s)"
proof (induction sched arbitrary: s)
  case Nil
  then show ?case by simp
next
  case (Cons t sched)
  from exec_Cons [OF Cons.prems] obtain s1
    where s1: "step fs t s = Some s1" "exec fs sched s1 = Some s'" by blast
  from Cons.IH [OF s1(2)] step_totals_length [OF s1(1)] show ?case by simp
qed

lemma owing_seeded:
  assumes "seed_ok fs u argv s" "r < length argv" "list_all (\<lambda>l. pc l = L150) (threads s)"
  shows "owing fs r s = seen_total fs u r (argv ! r)"
proof -
  have "\<forall>l\<in>set (threads s). lpend fs r l = 0"
    using assms(3) by (auto simp: list_all_iff lpend_def pend_def)
  then have z: "sum_list (map (lpend fs r) (threads s)) = 0"
    by (rule sum_list_zero)
  from assms(1) have "queue s = available_files s"
    by (simp add: seed_ok_def queue_def)
  with z assms(1,2) show ?thesis by (simp add: owing_def seed_ok_def)
qed

lemma seed_ok_pool: "seed_ok fs u argv (pool fs u argv k)"
  using seed_ok_initialize [of fs u argv k] by (simp add: pool_def run_threads_def seed_ok_def)

lemma locals_ok_pool: "locals_ok (pool fs u argv k)"
  by (simp add: locals_ok_def pool_def run_threads_def start_local_def)

text \<open>Every slot of \<^verbatim>\<open>total_sizes\<close> once all workers have returned.\<close>

lemma final_totals:
  assumes k: "0 < k" and e: "exec fs sched (pool fs u argv k) = Some s" and ret: "all_returned s"
  shows "total_sizes s = map (\<lambda>(r, p). seen_total fs u r p) (enumerate 0 argv)"
proof (rule nth_equalityI)
  note p = pool_inv_pool [OF k, of fs u argv]
  from seed_ok_pool [of fs u argv k]
  have len0: "length (total_sizes (pool fs u argv k)) = length argv"
    by (simp add: seed_ok_def)
  from exec_inv [OF p e] have inv: "pool_inv s" .
  from exec_threads_length [OF e] k have ne: "threads s \<noteq> []" by auto
  have start: "list_all (\<lambda>l. pc l = L150) (threads (pool fs u argv k))"
    by (simp add: pool_def run_threads_def start_local_def list_all_iff)
  from exec_totals_length [OF e] len0 have len: "length (total_sizes s) = length argv" by simp
  then show "length (total_sizes s) = length (map (\<lambda>(r, p). seen_total fs u r p) (enumerate 0 argv))"
    by simp
  fix r assume "r < length (total_sizes s)"
  with len have r: "r < length argv" by simp
  with len0 have r0: "r < length (total_sizes (pool fs u argv k))" by simp
  from owing_exec [OF p locals_ok_pool e r0] owing_returned [OF inv ret ne, of fs r]
    owing_seeded [OF seed_ok_pool r start]
  have "total_sizes s ! r = seen_total fs u r (argv ! r)" by simp
  with r show "total_sizes s ! r = map (\<lambda>(r, p). seen_total fs u r p) (enumerate 0 argv) ! r"
    by (simp add: nth_enumerate_eq)
qed

section \<open>What main prints\<close>


lemma print_eq:
  assumes "\<forall>r<length argv. total_sizes s ! r = f r (argv ! r)"
  shows "print argv s = map (\<lambda>(j, file). (sint (f j file) sdiv 2, file)) (enumerate 0 argv)"
  unfolding print_def using assms
  by (intro map_cong refl) (auto simp: in_set_enumerate_eq)

lemma map_enumerate_snd: "map (\<lambda>(j, x). g x) (enumerate n xs) = map g xs"
  by (induction xs arbitrary: n) simp_all

lemma seen_total_statable:
  "lstat fs p \<noteq> None \<Longrightarrow> seen_total fs u r p = word_of_int (root_blocks fs p)"
  by (auto simp: seen_total_def seen_stat_def root_blocks_def ucast_blocks)

lemma seen_total_roots:
  assumes "\<forall>p\<in>set argv. lstat fs p \<noteq> None" "r < length argv"
  shows "seen_total fs u r (argv ! r) = word_of_int (root_blocks fs (argv ! r))"
  using assms by (intro seen_total_statable) simp

text \<open>What \<^verbatim>\<open>main\<close> prints, whatever the schedule and the number of workers.\<close>

lemma main_output:
  assumes k: "0 < k" and m: "main fs u argv k sched = Some (out, st)"
  shows "out = map (\<lambda>(j, file). (sint (seen_total fs u j file) sdiv 2, file)) (enumerate 0 argv)"
proof (cases "0 < nr_available_files (initialize fs u argv k)")
  case True
  with m obtain s where s: "exec fs sched (pool fs u argv k) = Some s" "all_returned s"
    and out: "out = print argv s"
    by (auto simp: main_def Let_def pool_def split: option.splits if_splits)
  from final_totals [OF k s] have "\<forall>r<length argv. total_sizes s ! r = seen_total fs u r (argv ! r)"
    by (simp add: nth_enumerate_eq)
  from print_eq [of argv s "seen_total fs u", OF this] out show ?thesis by simp
next
  case False
  with m have out: "out = print argv (initialize fs u argv k)"
    by (simp add: main_def Let_def)
  from seed_ok_initialize [of fs u argv k] False
  have "available_files (initialize fs u argv k) = []"
    by (simp add: seed_ok_def)
  with seed_ok_initialize [of fs u argv k]
  have "\<forall>r<length argv. total_sizes (initialize fs u argv k) ! r = seen_total fs u r (argv ! r)"
    by (simp add: seed_ok_def qsum_def)
  from print_eq [of argv "initialize fs u argv k" "seen_total fs u", OF this] out
  show ?thesis by simp
qed

lemma statable_output:
  assumes "\<forall>p\<in>set argv. lstat fs p \<noteq> None"
  shows "map (\<lambda>(j, file). (sint (seen_total fs u j file) sdiv 2, file)) (enumerate 0 argv)
       = map (\<lambda>p. (sint (word_of_int (root_blocks fs p) :: 32 word) sdiv 2, p)) argv"
proof -
  have "map (\<lambda>(j, file). (sint (seen_total fs u j file) sdiv 2, file)) (enumerate 0 argv)
      = map (\<lambda>(j, file). (sint (word_of_int (root_blocks fs file) :: 32 word) sdiv 2, file))
          (enumerate 0 argv)"
    using seen_total_roots [OF assms]
    by (intro map_cong refl) (auto simp: in_set_enumerate_eq)
  then show ?thesis by (simp add: map_enumerate_snd)
qed

lemma sint_in_range:
  assumes "- (2 ^ 31) \<le> x" "x < 2 ^ 31"
  shows "sint (word_of_int x :: 32 word) = x"
  using assms by (simp add: sint_sbintrunc' signed_take_bit_int_eq_self)

text \<open>
  C1, as the code has it. For roots that can all be statted and at least one worker: once
  all workers have returned, the accumulator of each root is the sum of the block counts
  of the root and of every entry reachable below it, as a 32-bit \<^verbatim>\<open>int\<close> (the sum
  modulo \<open>2 ^ 32\<close>), so it is that sum whenever the sum fits an \<^verbatim>\<open>int\<close>; \<^verbatim>\<open>main\<close>
  prints its signed half. In the scenario the sum for root \<^verbatim>\<open>a\<close> is 40 and 20 is printed.
\<close>

theorem root_totals:
  assumes "0 < k" and "\<forall>p\<in>set argv. lstat fs p \<noteq> None"
  shows "(\<forall>sched s. exec fs sched (pool fs uninit argv k) = Some s \<and> all_returned s \<longrightarrow>
            total_sizes s = map (\<lambda>p. word_of_int (root_blocks fs p)) argv \<and>
            (\<forall>r<length argv. - (2 ^ 31) \<le> root_blocks fs (argv ! r) \<and>
                 root_blocks fs (argv ! r) < 2 ^ 31 \<longrightarrow>
               sint (total_sizes s ! r) = root_blocks fs (argv ! r))) \<and>
         (\<forall>sched out st. main fs uninit argv k sched = Some (out, st) \<longrightarrow>
            out = map (\<lambda>p. (sint (word_of_int (root_blocks fs p) :: 32 word) sdiv 2, p)) argv) \<and>
         root_blocks scenario_fs ''a'' = 40 \<and>
         (\<forall>sched out st. main scenario_fs uninit [''a''] k sched = Some (out, st) \<longrightarrow>
            out = [(20, ''a'')])"
proof (intro conjI allI impI)
  fix sched s
  assume "exec fs sched (pool fs uninit argv k) = Some s \<and> all_returned s"
  then have e: "exec fs sched (pool fs uninit argv k) = Some s" and ret: "all_returned s"
    by simp_all
  have "map (\<lambda>(r, p). seen_total fs uninit r p) (enumerate 0 argv)
      = map (\<lambda>(r, p). word_of_int (root_blocks fs p)) (enumerate 0 argv)"
    using seen_total_roots [OF assms(2)]
    by (intro map_cong refl) (auto simp: in_set_enumerate_eq)
  with final_totals [OF assms(1) e ret]
  show tot: "total_sizes s = map (\<lambda>p. word_of_int (root_blocks fs p)) argv"
    by (simp add: map_enumerate_snd)
  fix r
  assume "r < length argv"
    and "- (2 ^ 31) \<le> root_blocks fs (argv ! r) \<and> root_blocks fs (argv ! r) < 2 ^ 31"
  then show "sint (total_sizes s ! r) = root_blocks fs (argv ! r)"
    unfolding tot by (simp add: sint_in_range)
next
  fix sched out st
  assume "main fs uninit argv k sched = Some (out, st)"
  from main_output [OF assms(1) this] statable_output [OF assms(2)]
  show "out = map (\<lambda>p. (sint (word_of_int (root_blocks fs p) :: 32 word) sdiv 2, p)) argv"
    by simp
next
  show r40: "root_blocks scenario_fs ''a'' = 40" by code_simp
  fix sched out st
  assume "main scenario_fs uninit [''a''] k sched = Some (out, st)"
  from main_output [OF assms(1) this]
  have "out = [(sint (seen_total scenario_fs uninit 0 ''a'') sdiv 2, ''a'')]" by simp
  moreover have "lstat scenario_fs ''a'' \<noteq> None" by code_simp
  then have "seen_total scenario_fs uninit 0 ''a'' = word_of_int (root_blocks scenario_fs ''a'')"
    by (rule seen_total_statable)
  ultimately show "out = [(20, ''a'')]" by (simp add: r40)
qed

definition two_threads :: "nat list" where
  "two_threads =
     [0, 0, 0, 0, 0, 0, 1, 1, 0, 1, 1, 0, 0, 0, 0, 0, 0, 0, 0, 0, 0, 1, 0, 1, 1, 1, 1, 1, 1,
      0, 1, 0, 0, 0, 1, 0, 1, 1, 1, 0, 0, 0, 0, 0, 1, 1, 1, 1, 1, 1, 1, 1, 1, 0, 0, 1, 1, 1]"

theorem root_totals_witness:
  "all_returned (the (exec scenario_fs two_threads (pool scenario_fs no_stat [''a''] 2))) \<and>
   total_sizes (the (exec scenario_fs two_threads (pool scenario_fs no_stat [''a''] 2))) = [40] \<and>
   sint (total_sizes (the (exec scenario_fs two_threads (pool scenario_fs no_stat [''a''] 2))) ! 0) = 40 \<and>
   main scenario_fs no_stat [''a''] 2 two_threads = Some ([(20, ''a'')], 0)"
proof -
  have k: "(0::nat) < 2" by simp
  have st: "\<forall>p\<in>set [''a'']. lstat scenario_fs p \<noteq> None" by code_simp
  have "exec scenario_fs two_threads (pool scenario_fs no_stat [''a''] 2) \<noteq> None"
    by code_simp
  then obtain s where s: "exec scenario_fs two_threads (pool scenario_fs no_stat [''a''] 2) = Some s"
    by blast
  have r: "all_returned (the (exec scenario_fs two_threads (pool scenario_fs no_stat [''a''] 2)))"
    by code_simp
  have "main scenario_fs no_stat [''a''] 2 two_threads \<noteq> None" by code_simp
  then obtain out e where m: "main scenario_fs no_stat [''a''] 2 two_threads = Some (out, e)"
    by auto
  have e: "snd (the (main scenario_fs no_stat [''a''] 2 two_threads)) = 0" by code_simp
  note th = root_totals [OF k st, of no_stat]
  from th s r have "total_sizes s = [40] \<and> sint (total_sizes s ! 0) = 40"
    by (auto simp del: sint_numeral)
  moreover from th m have "out = [(20, ''a'')]" by blast
  ultimately show ?thesis using s r m e by simp
qed

text \<open>
  C1 as stated fails: a root file of \<open>2 ^ 31\<close> blocks (1 TiB) leaves \<open>- 2 ^ 31\<close> in its
  accumulator, and \<^verbatim>\<open>main\<close> prints \<open>- 2 ^ 30\<close>.
\<close>

definition big_fs :: filesystem where
  "big_fs = [(''big'', \<lparr>n_stat = \<lparr>st_blocks = 2147483648, st_isdir = False\<rparr>,
                         n_entries = None, n_closedir_fails = False\<rparr>)]"

theorem accumulator_wraps:
  "root_blocks big_fs ''big'' = 2147483648 \<and>
   sint (total_sizes (initialize big_fs no_stat [''big''] 1) ! 0) = - 2147483648 \<and>
   main big_fs no_stat [''big''] 1 [] = Some ([(- 1073741824, ''big'')], 0)"
  by code_simp


text \<open>
  Two complete runs of \<^verbatim>\<open>main\<close> on the same file system and the same roots print the
  same totals, whatever their numbers of workers (at least one each) and their schedules,
  when the seeder finds the same unwritten memory in both, and also when every root can
  be statted, whatever the unwritten memory holds.
\<close>

lemma same_totals:
  assumes "0 < k" and "0 < k'"
    and "main fs uninit argv k sched = Some (out, st)"
    and "main fs uninit argv k' sched' = Some (out', st')"
  shows "out = out'"
  using main_output [OF assms(1,3)] main_output [OF assms(2,4)] by simp

lemma same_totals_statable:
  assumes "0 < k" and "0 < k'" and "\<forall>p\<in>set argv. lstat fs p \<noteq> None"
    and "main fs uninit argv k sched = Some (out, st)"
    and "main fs uninit' argv k' sched' = Some (out', st')"
  shows "out = out'"
  using main_output [OF assms(1,4)] main_output [OF assms(2,5)]
    statable_output [OF assms(3), of uninit] statable_output [OF assms(3), of uninit']
  by simp

lemma same_totals_scenario:
  "main scenario_fs no_stat [''a''] 1 (replicate 45 0) = Some ([(20, ''a'')], 0) \<and>
   main scenario_fs no_stat [''a''] 2 two_threads = Some ([(20, ''a'')], 0)"
proof -
  have a: "main scenario_fs no_stat [''a''] 1 (replicate 45 0) = Some ([(20, ''a'')], 0)"
    by code_simp
  have "main scenario_fs no_stat [''a''] 2 two_threads \<noteq> None" by code_simp
  then obtain out e where m: "main scenario_fs no_stat [''a''] 2 two_threads = Some (out, e)"
    by auto
  have e: "snd (the (main scenario_fs no_stat [''a''] 2 two_threads)) = 0" by code_simp
  have "(0::nat) < 1" "(0::nat) < 2" by simp_all
  from same_totals [OF this a m] a m e show ?thesis by simp
qed

text \<open>
  C5 fails on the code: the root \<^verbatim>\<open>nope\<close> cannot be statted, \<^verbatim>\<open>initialize_files\<close> adds the
  \<^verbatim>\<open>st_blocks\<close> of a \<^verbatim>\<open>struct stat\<close> that was never written, and one run with one worker
  and one run with two workers on the same (empty) tree print different totals for the
  same root, by what that memory held alone.
\<close>

theorem unwritten_stat_breaks_determinism:
  "lstat [] ''nope'' = None \<and>
   main [] (\<lambda>i. \<lparr>st_blocks = 0, st_isdir = False\<rparr>) [''nope''] 1 [] = Some ([(0, ''nope'')], 1) \<and>
   main [] (\<lambda>i. \<lparr>st_blocks = 32, st_isdir = False\<rparr>) [''nope''] 2 [] = Some ([(16, ''nope'')], 1)"
  by code_simp

lemma no_dir_files:
  assumes "lstat fs (name file) = Some st" "\<not> st_isdir st"
  shows "available_files (initialize_files fs u file s) = available_files s"
    "nr_available_files (initialize_files fs u file s) = nr_available_files s"
    "threads (initialize_files fs u file s) = threads s"
    "exit_status (initialize_files fs u file s) = exit_status s"
  using assms by (simp_all add: initialize_files_def Let_def)

lemma no_dir_loop:
  assumes "\<forall>p\<in>set argv. \<exists>st. lstat fs p = Some st \<and> \<not> st_isdir st"
  shows "nr_available_files (initialize_loop fs u i argv s) = nr_available_files s \<and>
         threads (initialize_loop fs u i argv s) = threads s \<and>
         exit_status (initialize_loop fs u i argv s) = exit_status s"
  using assms
proof (induction argv arbitrary: i s)
  case Nil
  then show ?case by simp
next
  case (Cons a argv)
  from Cons.prems obtain st where st: "lstat fs a = Some st" "\<not> st_isdir st" by auto
  from Cons.prems have rest: "\<forall>p\<in>set argv. \<exists>st. lstat fs p = Some st \<and> \<not> st_isdir st" by simp
  show ?case
    using Cons.IH [OF rest] no_dir_files [of fs "\<lparr>parent_id = i, name = a\<rparr>" st] st
    by simp
qed

text \<open>
  When every root can be statted and none is a directory, the seeder enqueues nothing,
  \<^verbatim>\<open>main\<close> does not call \<^verbatim>\<open>run_threads\<close> (its result is that of the seeded state, in
  which no thread exists, for every schedule and number of workers), and it prints for
  each root the signed half of the root's own block count as an \<^verbatim>\<open>int\<close>.
\<close>

lemma no_directory_roots:
  assumes "\<forall>p\<in>set argv. \<exists>st. lstat fs p = Some st \<and> \<not> st_isdir st"
  shows "nr_available_files (initialize fs uninit argv k) = 0 \<and>
         threads (initialize fs uninit argv k) = [] \<and>
         main fs uninit argv k sched
           = Some (print argv (initialize fs uninit argv k), 0) \<and>
         print argv (initialize fs uninit argv k)
           = map (\<lambda>p. (sint (ucast (st_blocks (the (lstat fs p))) :: 32 word) sdiv 2, p)) argv"
proof -
  let ?s = "initialize fs uninit argv k"
  from no_dir_loop [OF assms, of uninit 0]
  have z: "nr_available_files ?s = 0" "threads ?s = []" "exit_status ?s = 0"
    by (simp_all add: initialize_def)
  then have m: "main fs uninit argv k sched = Some (print argv ?s, 0)"
    by (simp add: main_def Let_def)
  from seed_ok_initialize [of fs uninit argv k] z(1)
  have "available_files ?s = []" by (simp add: seed_ok_def)
  with seed_ok_initialize [of fs uninit argv k]
  have tot: "\<forall>r<length argv. total_sizes ?s ! r = seen_total fs uninit r (argv ! r)"
    by (simp add: seed_ok_def qsum_def)
  have eq: "seen_total fs uninit r (argv ! r) = ucast (st_blocks (the (lstat fs (argv ! r))))"
    if "r < length argv" for r
  proof -
    from that assms obtain st where "lstat fs (argv ! r) = Some st" "\<not> st_isdir st"
      using nth_mem by blast
    then show ?thesis by (simp add: seen_total_def seen_stat_def)
  qed
  have "map (\<lambda>(j, file). (sint (seen_total fs uninit j file) sdiv 2, file)) (enumerate 0 argv)
      = map (\<lambda>(j, file). (sint (ucast (st_blocks (the (lstat fs file))) :: 32 word) sdiv 2, file))
          (enumerate 0 argv)"
    using eq by (intro map_cong refl) (auto simp: in_set_enumerate_eq)
  with print_eq [of argv ?s "seen_total fs uninit", OF tot]
  have "print argv ?s
      = map (\<lambda>p. (sint (ucast (st_blocks (the (lstat fs p))) :: 32 word) sdiv 2, p)) argv"
    by (simp add: map_enumerate_snd)
  with z m show ?thesis by simp
qed

definition files_fs :: filesystem where
  "files_fs =
    [(''x'', \<lparr>n_stat = \<lparr>st_blocks = 4, st_isdir = False\<rparr>,
             n_entries = None, n_closedir_fails = False\<rparr>),
     (''y'', \<lparr>n_stat = \<lparr>st_blocks = 24, st_isdir = False\<rparr>,
             n_entries = None, n_closedir_fails = False\<rparr>)]"

lemma no_directory_roots_files:
  "threads (initialize files_fs no_stat [''x'', ''y''] 3) = [] \<and>
   main files_fs no_stat [''x'', ''y''] 3 [0, 1, 2] = Some ([(2, ''x''), (12, ''y'')], 0)"
proof -
  have h: "\<forall>p\<in>set [''x'', ''y'']. \<exists>st. lstat files_fs p = Some st \<and> \<not> st_isdir st"
    by (simp add: lstat_def files_fs_def)
  have p: "print [''x'', ''y''] (initialize files_fs no_stat [''x'', ''y''] 3)
      = [(2, ''x''), (12, ''y'')]"
    by code_simp
  from no_directory_roots [OF h, of no_stat 3 "[0, 1, 2]"] p show ?thesis by simp
qed

text \<open>
  C10 fails on the code: the root \<^verbatim>\<open>nope\<close> does not exist, so no root is a directory;
  yet when the \<^verbatim>\<open>struct stat\<close> that \<^verbatim>\<open>initialize_files\<close> reads after the failed \<^verbatim>\<open>lstat\<close>
  looks like a directory, the root is enqueued, \<^verbatim>\<open>main\<close> starts the pool, has no result
  before the worker has run, and prints the half of what that memory held.
\<close>

theorem missing_root_starts_the_pool:
  "lstat [] ''nope'' = None \<and>
   nr_available_files (initialize [] (\<lambda>i. \<lparr>st_blocks = 8, st_isdir = True\<rparr>) [''nope''] 1) = 1 \<and>
   queue (initialize [] (\<lambda>i. \<lparr>st_blocks = 8, st_isdir = True\<rparr>) [''nope''] 1)
     = [\<lparr>parent_id = 0, name = ''nope''\<rparr>] \<and>
   length (threads (pool [] (\<lambda>i. \<lparr>st_blocks = 8, st_isdir = True\<rparr>) [''nope''] 1)) = 1 \<and>
   main [] (\<lambda>i. \<lparr>st_blocks = 8, st_isdir = True\<rparr>) [''nope''] 1 [] = None \<and>
   main [] (\<lambda>i. \<lparr>st_blocks = 8, st_isdir = True\<rparr>) [''nope''] 1 (replicate 20 0)
     = Some ([(4, ''nope'')], 1)"
  by code_simp

text \<open>
  C9 fails on the code: for a root that cannot be statted \<^verbatim>\<open>initialize_files\<close> adds the
  \<^verbatim>\<open>st_blocks\<close> of a \<^verbatim>\<open>struct stat\<close> that was never written, and enqueues the root when
  that memory looks like a directory. The slot is whatever the stack held.
\<close>

theorem seeder_reads_unwritten_stat:
  "lstat [] ''nope'' = None \<and>
   total_sizes (initialize [] (\<lambda>i. \<lparr>st_blocks = 7, st_isdir = False\<rparr>) [''nope''] 1) = [7] \<and>
   total_sizes (initialize [] (\<lambda>i. \<lparr>st_blocks = 9, st_isdir = True\<rparr>) [''nope''] 1) = [9] \<and>
   available_files (initialize [] (\<lambda>i. \<lparr>st_blocks = 9, st_isdir = True\<rparr>) [''nope''] 1)
     = [\<lparr>parent_id = 0, name = ''nope''\<rparr>] \<and>
   exit_status (initialize [] (\<lambda>i. \<lparr>st_blocks = 7, st_isdir = False\<rparr>) [''nope''] 1) = 1"
  by code_simp

section \<open>Expanding one entry\<close>


definition scenario_at :: "nat \<Rightarrow> state" where
  "scenario_at n = the (exec scenario_fs (replicate n 0) (pool scenario_fs no_stat [''a''] 1))"

text \<open>What one entry adds to the local total in \<^verbatim>\<open>get_directory_size\<close> (line 231).\<close>

definition own_blocks :: "filesystem \<Rightarrow> string \<Rightarrow> string \<Rightarrow> 32 word" where
  "own_blocks fs p d =
     (if d = ''.'' \<or> d = ''..'' then 0
      else (case lstat fs (join_path p d) of None \<Rightarrow> 0 | Some st \<Rightarrow> ucast (st_blocks st)))"

text \<open>
  What \<^verbatim>\<open>get_directory_size\<close> is going to return, seen from a worker inside the
  \<^verbatim>\<open>readdir\<close> loop or past it.
\<close>

definition returns :: "filesystem \<Rightarrow> local \<Rightarrow> 32 word option" where
  "returns fs l =
     (case pc l of
        L230 \<Rightarrow> Some (size_v l + sum_list (map (own_blocks fs (name (f_dir l))) (dir_t l)))
      | L287 \<Rightarrow> Some (size_v l + ucast (st_blocks (file_stat l))
                      + sum_list (map (own_blocks fs (name (f_dir l))) (dir_t l)))
      | L288 \<Rightarrow> Some (size_v l + ucast (st_blocks (file_stat l))
                      + sum_list (map (own_blocks fs (name (f_dir l))) (dir_t l)))
      | L237 \<Rightarrow> Some (size_v l)
      | L184 \<Rightarrow> Some (size_v l)
      | _ \<Rightarrow> None)"

lemma step_other:
  assumes "step fs u x = Some x'" and "t \<noteq> u"
  shows "threads x' ! t = threads x ! t"
proof -
  from assms(1) have u: "u < length (threads x)" by (rule step_in_range)
  from assms u show ?thesis
    by (cases "pc (threads x ! u)")
      (auto simp: step_def Let_def get_available_file_def
        split: if_splits option.splits list.splits)
qed

lemma returns_own_step:
  assumes t: "t < length (threads x)" and r: "returns fs (threads x ! t) = Some v"
    and pc: "pc (threads x ! t) \<noteq> L184" and st: "step fs t x = Some x'"
  shows "returns fs (threads x' ! t) = Some v \<and> f_dir (threads x' ! t) = f_dir (threads x ! t)"
proof -
  from r pc consider (L230) "pc (threads x ! t) = L230" | (L287) "pc (threads x ! t) = L287"
    | (L288) "pc (threads x ! t) = L288" | (L237) "pc (threads x ! t) = L237"
    by (cases "pc (threads x ! t)") (simp_all add: returns_def)
  then show ?thesis
  proof cases
    case L230
    show ?thesis
    proof (cases "dir_t (threads x ! t)")
      case Nil
      with L230 t r st show ?thesis
        by (auto simp: step_def Let_def returns_def)
    next
      case (Cons d rest)
      with L230 t r st show ?thesis
        by (auto simp: step_def Let_def returns_def own_blocks_def ac_simps
            split: if_splits option.splits)
    qed
  next
    case L287
    with t r st show ?thesis
      by (auto simp: step_def Let_def returns_def split: if_splits)
  next
    case L288
    with t r st show ?thesis
      by (auto simp: step_def Let_def returns_def)
  next
    case L237
    with t r st show ?thesis
      by (auto simp: step_def Let_def returns_def)
  qed
qed

lemma returns_exec:
  assumes "t < length (threads s)" and "returns fs (threads s ! t) = Some v"
    and "exec fs sched s = Some s2"
    and "list_all (\<lambda>e. \<not> (fst e = t \<and> at_pc L184 e)) (trace fs sched s)"
  shows "returns fs (threads s2 ! t) = Some v \<and> f_dir (threads s2 ! t) = f_dir (threads s ! t) \<and>
         t < length (threads s2)"
  using assms
proof (induction sched arbitrary: s)
  case Nil
  then show ?case by simp
next
  case (Cons u sched)
  from exec_Cons [OF Cons.prems(3)] obtain s1
    where s1: "step fs u s = Some s1" "exec fs sched s1 = Some s2" by blast
  from Cons.prems(4) s1(1)
  have no: "\<not> (u = t \<and> pc (threads s ! t) = L184)"
    and rest: "list_all (\<lambda>e. \<not> (fst e = t \<and> at_pc L184 e)) (trace fs sched s1)"
    by (simp_all add: at_pc_def)
  from step_threads_length [OF s1(1)] Cons.prems(1) have t1: "t < length (threads s1)" by simp
  have keep: "returns fs (threads s1 ! t) = Some v \<and> f_dir (threads s1 ! t) = f_dir (threads s ! t)"
  proof (cases "u = t")
    case True
    with no have "pc (threads s ! t) \<noteq> L184" by simp
    from returns_own_step [OF Cons.prems(1,2) this] s1(1) True show ?thesis by simp
  next
    case False
    then have "t \<noteq> u" by simp
    from step_other [OF s1(1) this] Cons.prems(2) show ?thesis by simp
  qed
  from Cons.IH [OF t1 _ s1(2) rest] keep show ?case by simp
qed

text \<open>
  C6, as the code has it. A worker at the \<^verbatim>\<open>readdir\<close> loop whose next entry is neither
  \<^verbatim>\<open>.\<close> nor \<^verbatim>\<open>..\<close> and can be statted: if the entry is a directory, the worker's next
  three steps (the lock being free) push a \<^verbatim>\<open>dir_info\<close> with the same \<^verbatim>\<open>parent_id\<close> and
  the joined path, post the semaphore once and add the entry's block count to the local
  total; if it is not, one step adds the entry's block count to the local total and
  leaves queue and semaphore alone. In both cases, whatever the other workers do in
  between, the next time this worker is at line 184 its step adds to the accumulator of
  that \<^verbatim>\<open>parent_id\<close> the local total it had before the entry, the entry's block count and
  the block counts of the entries still to be read.
\<close>

theorem expander_entry:
  assumes "t < length (threads s)" and "pc (threads s ! t) = L230"
    and "dir_t (threads s ! t) = d # rest" and "d \<noteq> ''.''" and "d \<noteq> ''..''"
    and "lstat fs (join_path (name (f_dir (threads s ! t))) d) = Some st"
    and "available_lock s = None" and "queue_ok s"
  shows "(st_isdir st \<longrightarrow>
            (\<exists>s'. exec fs [t, t, t] s = Some s' \<and>
               queue s' = queue s @ [\<lparr>parent_id = parent_id (f_dir (threads s ! t)),
                                      name = join_path (name (f_dir (threads s ! t))) d\<rparr>] \<and>
               available_sem s' = available_sem s + 1 \<and>
               size_v (threads s' ! t) = size_v (threads s ! t) + ucast (st_blocks st) \<and>
               pc (threads s' ! t) = L230 \<and> dir_t (threads s' ! t) = rest)) \<and>
         (\<not> st_isdir st \<longrightarrow>
            (\<exists>s'. step fs t s = Some s' \<and> queue s' = queue s \<and>
               available_sem s' = available_sem s \<and>
               size_v (threads s' ! t) = size_v (threads s ! t) + ucast (st_blocks st) \<and>
               pc (threads s' ! t) = L230 \<and> dir_t (threads s' ! t) = rest)) \<and>
         (\<forall>sched s2. exec fs sched s = Some s2 \<and> pc (threads s2 ! t) = L184 \<and>
              list_all (\<lambda>e. \<not> (fst e = t \<and> at_pc L184 e)) (trace fs sched s) \<longrightarrow>
            (\<exists>s3. step fs t s2 = Some s3 \<and>
               total_sizes s3 = (total_sizes s2)[parent_id (f_dir (threads s ! t)) :=
                 total_sizes s2 ! parent_id (f_dir (threads s ! t)) +
                   (size_v (threads s ! t) + ucast (st_blocks st) +
                    sum_list (map (own_blocks fs (name (f_dir (threads s ! t)))) rest))]))"
proof (intro conjI impI allI)
  assume dir: "st_isdir st"
  let ?l = "threads s ! t"
  let ?tmp = "join_path (name (f_dir ?l)) d"
  let ?s1 = "set_local t (?l\<lparr>pc := L287, dir_t := rest, temp_path := ?tmp, file_stat := st\<rparr>) s"
  let ?item = "\<lparr>parent_id = parent_id (f_dir ?l), name = ?tmp\<rparr>"
  let ?s2 = "set_local t ((threads ?s1 ! t)\<lparr>pc := L288\<rparr>) (set_available_file ?item ?s1)"
  let ?s3 = "set_local t ((threads ?s2 ! t)\<lparr>pc := L230,
      size_v := size_v (threads ?s2 ! t) + ucast (st_blocks (file_stat (threads ?s2 ! t)))\<rparr>)
      (sem_post ?s2)"
  have 1: "step fs t s = Some ?s1"
    using assms dir by (simp add: step_def Let_def)
  have 2: "step fs t ?s1 = Some ?s2"
    using assms by (simp add: step_def Let_def)
  have 3: "step fs t ?s2 = Some ?s3"
    using assms by (simp add: step_def Let_def)
  have q: "queue ?s3 = queue s @ [?item]"
    using queue_push [OF assms(8), of ?item] assms(1)
    by (simp add: queue_def)
  have "exec fs [t, t, t] s = Some ?s3"
    by (simp only: exec.simps 1 2 3 option.case)
  moreover have "available_sem ?s3 = available_sem s + 1" by simp
  moreover have "size_v (threads ?s3 ! t) = size_v ?l + ucast (st_blocks st)"
    "pc (threads ?s3 ! t) = L230" "dir_t (threads ?s3 ! t) = rest"
    using assms(1) by simp_all
  ultimately show "\<exists>s'. exec fs [t, t, t] s = Some s' \<and>
               queue s' = queue s @ [?item] \<and>
               available_sem s' = available_sem s + 1 \<and>
               size_v (threads s' ! t) = size_v (threads s ! t) + ucast (st_blocks st) \<and>
               pc (threads s' ! t) = L230 \<and> dir_t (threads s' ! t) = rest"
    using q by blast
next
  assume "\<not> st_isdir st"
  with assms show "\<exists>s'. step fs t s = Some s' \<and> queue s' = queue s \<and>
               available_sem s' = available_sem s \<and>
               size_v (threads s' ! t) = size_v (threads s ! t) + ucast (st_blocks st) \<and>
               pc (threads s' ! t) = L230 \<and> dir_t (threads s' ! t) = rest"
    by (simp add: step_def Let_def)
next
  fix sched and s2 :: state
  assume a: "exec fs sched s = Some s2 \<and> pc (threads s2 ! t) = L184 \<and>
    list_all (\<lambda>e. \<not> (fst e = t \<and> at_pc L184 e)) (trace fs sched s)"
  let ?v = "size_v (threads s ! t) + ucast (st_blocks st) +
    sum_list (map (own_blocks fs (name (f_dir (threads s ! t)))) rest)"
  from assms have "returns fs (threads s ! t) = Some ?v"
    by (simp add: returns_def own_blocks_def ac_simps)
  from returns_exec [OF assms(1) this, of sched s2] a
  have r: "returns fs (threads s2 ! t) = Some ?v"
    and f: "f_dir (threads s2 ! t) = f_dir (threads s ! t)" and t2: "t < length (threads s2)"
    by simp_all
  from r a have "size_v (threads s2 ! t) = ?v" by (simp add: returns_def)
  with a t2 f show "\<exists>s3. step fs t s2 = Some s3 \<and>
               total_sizes s3 = (total_sizes s2)[parent_id (f_dir (threads s ! t)) :=
                 total_sizes s2 ! parent_id (f_dir (threads s ! t)) + ?v]"
    by (simp add: step_def Let_def)
qed

theorem expander_entry_witness:
  "pc (threads (scenario_at 13) ! 0) = L230 \<and> dir_t (threads (scenario_at 13) ! 0) = [''b''] \<and>
   lstat scenario_fs ''a/b'' = Some \<lparr>st_blocks = 8, st_isdir = True\<rparr> \<and>
   size_v (threads (scenario_at 13) ! 0) = 8 \<and>
   (\<exists>s'. exec scenario_fs [0, 0, 0] (scenario_at 13) = Some s' \<and>
      queue s' = [\<lparr>parent_id = 0, name = ''a/b''\<rparr>] \<and> available_sem s' = 1 \<and>
      size_v (threads s' ! 0) = 16) \<and>
   total_sizes (the (exec scenario_fs (replicate 5 0) (scenario_at 13))) = [8] \<and>
   (\<exists>s3. step scenario_fs 0 (the (exec scenario_fs (replicate 5 0) (scenario_at 13))) = Some s3 \<and>
      total_sizes s3 = [24]) \<and>
   total_sizes (scenario_at 19) = [24]"
proof -
  have h: "0 < length (threads (scenario_at 13))" "pc (threads (scenario_at 13) ! 0) = L230"
    "dir_t (threads (scenario_at 13) ! 0) = ''b'' # []" "''b'' \<noteq> ''.''" "''b'' \<noteq> ''..''"
    "lstat scenario_fs (join_path (name (f_dir (threads (scenario_at 13) ! 0))) ''b'')
       = Some \<lparr>st_blocks = 8, st_isdir = True\<rparr>"
    "available_lock (scenario_at 13) = None" "queue_ok (scenario_at 13)"
    by code_simp+
  have v: "size_v (threads (scenario_at 13) ! 0) = 8" "queue (scenario_at 13) = []"
    "available_sem (scenario_at 13) = 0" "parent_id (f_dir (threads (scenario_at 13) ! 0)) = 0"
    "join_path (name (f_dir (threads (scenario_at 13) ! 0))) ''b'' = ''a/b''"
    "lstat scenario_fs ''a/b'' = Some \<lparr>st_blocks = 8, st_isdir = True\<rparr>"
    by code_simp+
  let ?s2 = "the (exec scenario_fs (replicate 5 0) (scenario_at 13))"
  have "exec scenario_fs (replicate 5 0) (scenario_at 13) \<noteq> None" by code_simp
  then have e: "exec scenario_fs (replicate 5 0) (scenario_at 13) = Some ?s2" by auto
  have w: "pc (threads ?s2 ! 0) = L184"
    "list_all (\<lambda>e. \<not> (fst e = 0 \<and> at_pc L184 e))
       (trace scenario_fs (replicate 5 0) (scenario_at 13))"
    "total_sizes ?s2 = [8]"
    by code_simp+
  note x = expander_entry [OF h]
  from x have "\<exists>s'. exec scenario_fs [0, 0, 0] (scenario_at 13) = Some s' \<and>
      queue s' = [\<lparr>parent_id = 0, name = ''a/b''\<rparr>] \<and> available_sem s' = 1 \<and>
      size_v (threads s' ! 0) = 16"
    using v by auto
  moreover have "\<exists>s3. step scenario_fs 0 ?s2 = Some s3 \<and> total_sizes s3 = [24]"
  proof -
    from x have "exec scenario_fs (replicate 5 0) (scenario_at 13) = Some ?s2 \<and>
        pc (threads ?s2 ! 0) = L184 \<and>
        list_all (\<lambda>e. \<not> (fst e = 0 \<and> at_pc L184 e))
          (trace scenario_fs (replicate 5 0) (scenario_at 13)) \<longrightarrow>
      (\<exists>s3. step scenario_fs 0 ?s2 = Some s3 \<and>
         total_sizes s3 = (total_sizes ?s2)[parent_id (f_dir (threads (scenario_at 13) ! 0)) :=
           total_sizes ?s2 ! parent_id (f_dir (threads (scenario_at 13) ! 0)) +
             (size_v (threads (scenario_at 13) ! 0) +
              ucast (st_blocks \<lparr>st_blocks = 8, st_isdir = True\<rparr>) +
              sum_list (map (own_blocks scenario_fs
                (name (f_dir (threads (scenario_at 13) ! 0)))) []))])"
      by blast
    with e w v show ?thesis by simp
  qed
  moreover have "total_sizes (scenario_at 19) = [24]" by code_simp
  ultimately show ?thesis using v h(2,3) w(3) by simp
qed

text \<open>
  C6 as stated fails: \<^verbatim>\<open>a/b\<close> is a directory of 8 blocks, and reading it takes the local
  total from 8 to 16; the 16 blocks are then added to the 8 blocks of the root \<^verbatim>\<open>a\<close>.
\<close>

theorem directory_entry_is_counted:
  "pc (threads (scenario_at 13) ! 0) = L230 \<and> dir_t (threads (scenario_at 13) ! 0) = [''b''] \<and>
   name (f_dir (threads (scenario_at 13) ! 0)) = ''a'' \<and>
   lstat scenario_fs ''a/b'' = Some \<lparr>st_blocks = 8, st_isdir = True\<rparr> \<and>
   size_v (threads (scenario_at 13) ! 0) = 8 \<and>
   pc (threads (scenario_at 16) ! 0) = L230 \<and> dir_t (threads (scenario_at 16) ! 0) = [] \<and>
   size_v (threads (scenario_at 16) ! 0) = 16 \<and>
   pc (threads (scenario_at 18) ! 0) = L184 \<and> size_v (threads (scenario_at 18) ! 0) = 16 \<and>
   total_sizes (scenario_at 18) = [8] \<and> total_sizes (scenario_at 19) = [24]"
  by code_simp

text \<open>
  The four places where expanding a directory can fail: \<^verbatim>\<open>lstat\<close> of an entry (line 271),
  \<^verbatim>\<open>lstat\<close> of the directory itself (line 209), \<^verbatim>\<open>opendir\<close> (line 219) and \<^verbatim>\<open>closedir\<close>
  (line 237).
\<close>

definition entry_lstat_fails :: "filesystem \<Rightarrow> local \<Rightarrow> bool" where
  "entry_lstat_fails fs l =
     (pc l = L230 \<and>
      (case dir_t l of
         [] \<Rightarrow> False
       | d # rest \<Rightarrow> d \<noteq> ''.'' \<and> d \<noteq> ''..'' \<and> lstat fs (join_path (name (f_dir l)) d) = None))"

definition dir_lstat_fails :: "filesystem \<Rightarrow> local \<Rightarrow> bool" where
  "dir_lstat_fails fs l = (pc l = L209 \<and> lstat fs (name (f_dir l)) = None)"

definition opendir_fails :: "filesystem \<Rightarrow> local \<Rightarrow> bool" where
  "opendir_fails fs l = (pc l = L219 \<and> opendir fs (name (f_dir l)) = None)"

definition closedir_fails_at :: "filesystem \<Rightarrow> local \<Rightarrow> bool" where
  "closedir_fails_at fs l = (pc l = L237 \<and> closedir_fails fs (name (f_dir l)))"

definition err_fs :: filesystem where
  "err_fs =
    [(''a'', \<lparr>n_stat = \<lparr>st_blocks = 8, st_isdir = True\<rparr>,
             n_entries = Some [''x'', ''y'', ''z''], n_closedir_fails = True\<rparr>),
     (''a/y'', \<lparr>n_stat = \<lparr>st_blocks = 8, st_isdir = True\<rparr>,
               n_entries = None, n_closedir_fails = False\<rparr>),
     (''a/z'', \<lparr>n_stat = \<lparr>st_blocks = 4, st_isdir = False\<rparr>,
               n_entries = None, n_closedir_fails = False\<rparr>)]"

definition err_at :: "nat \<Rightarrow> state" where
  "err_at n = the (exec err_fs (replicate n 0) (pool err_fs no_stat [''a''] 1))"

section \<open>Failures while expanding\<close>


lemma entry_lstat_fails_step:
  assumes "t < length (threads s)" and "entry_lstat_fails fs (threads s ! t)"
  shows "step fs t s = Some (set_local t
           ((threads s ! t)\<lparr>dir_t := tl (dir_t (threads s ! t)),
              temp_path := join_path (name (f_dir (threads s ! t))) (hd (dir_t (threads s ! t)))\<rparr>)
           (set_exit_status (Unable_to_stat (name (f_dir (threads s ! t)))) s))"
proof -
  from assms(2) obtain d rest where d: "dir_t (threads s ! t) = d # rest"
    by (cases "dir_t (threads s ! t)") (simp_all add: entry_lstat_fails_def)
  with assms show ?thesis
    by (simp add: step_def Let_def entry_lstat_fails_def)
qed

lemma dir_lstat_fails_step:
  assumes "t < length (threads s)" and "dir_lstat_fails fs (threads s ! t)"
  shows "step fs t s = Some (set_local t ((threads s ! t)\<lparr>pc := L184, size_v := 0\<rparr>)
           (set_exit_status (Unable_to_stat (name (f_dir (threads s ! t)))) s))"
  using assms by (simp add: step_def Let_def dir_lstat_fails_def)

lemma opendir_fails_step:
  assumes "t < length (threads s)" and "opendir_fails fs (threads s ! t)"
  shows "step fs t s = Some (set_local t ((threads s ! t)\<lparr>pc := L184, size_v := 0\<rparr>)
           (set_exit_status (Cannot_read_directory (name (f_dir (threads s ! t)))) s))"
  using assms by (simp add: step_def Let_def opendir_fails_def)

lemma closedir_fails_step:
  assumes "t < length (threads s)" and "closedir_fails_at fs (threads s ! t)"
  shows "step fs t s = Some (set_local t ((threads s ! t)\<lparr>pc := L184\<rparr>)
           (set_exit_status Closedir_error s))"
  using assms by (simp add: step_def Let_def closedir_fails_at_def)

lemma log_fields [simp]:
  "stderr_log (set_local t l s) = stderr_log s"
  "exit_status (set_local t l s) = exit_status s"
  "stderr_log (set_exit_status m s) = stderr_log s @ [m]"
  by (simp_all add: set_local_def set_exit_status_def)

lemma failing_step:
  assumes t: "t < length (threads s)"
    and f: "entry_lstat_fails fs (threads s ! t) \<or> dir_lstat_fails fs (threads s ! t) \<or>
         opendir_fails fs (threads s ! t) \<or> closedir_fails_at fs (threads s ! t)"
  shows "\<exists>s1. step fs t s = Some s1 \<and> exit_status s1 = 1 \<and>
           (\<exists>m. stderr_log s1 = stderr_log s @ [m]) \<and>
           (dir_lstat_fails fs (threads s ! t) \<longrightarrow>
              stderr_log s1 = stderr_log s @ [Unable_to_stat (name (f_dir (threads s ! t)))]) \<and>
           (opendir_fails fs (threads s ! t) \<longrightarrow>
              stderr_log s1 =
                stderr_log s @ [Cannot_read_directory (name (f_dir (threads s ! t)))]) \<and>
           (closedir_fails_at fs (threads s ! t) \<longrightarrow>
              stderr_log s1 = stderr_log s @ [Closedir_error]) \<and>
           total_sizes s1 = total_sizes s \<and> queue s1 = queue s \<and>
           available_sem s1 = available_sem s \<and>
           f_dir (threads s1 ! t) = f_dir (threads s ! t) \<and>
           (entry_lstat_fails fs (threads s ! t) \<longrightarrow>
              pc (threads s1 ! t) = L230 \<and> dir_t (threads s1 ! t) = tl (dir_t (threads s ! t)) \<and>
              size_v (threads s1 ! t) = size_v (threads s ! t)) \<and>
           (dir_lstat_fails fs (threads s ! t) \<or> opendir_fails fs (threads s ! t) \<longrightarrow>
              pc (threads s1 ! t) = L184 \<and> size_v (threads s1 ! t) = 0) \<and>
           (closedir_fails_at fs (threads s ! t) \<longrightarrow>
              pc (threads s1 ! t) = L184 \<and> size_v (threads s1 ! t) = size_v (threads s ! t))"
proof -
  from f consider (entry) "entry_lstat_fails fs (threads s ! t)"
    | (dir) "dir_lstat_fails fs (threads s ! t)"
    | (opendir) "opendir_fails fs (threads s ! t)"
    | (closedir) "closedir_fails_at fs (threads s ! t)" by blast
  then show ?thesis
  proof cases
    case entry
    then have pc: "pc (threads s ! t) = L230" by (simp add: entry_lstat_fails_def)
    then have no: "\<not> dir_lstat_fails fs (threads s ! t)" "\<not> opendir_fails fs (threads s ! t)"
      "\<not> closedir_fails_at fs (threads s ! t)"
      by (simp_all add: dir_lstat_fails_def opendir_fails_def closedir_fails_at_def)
    show ?thesis
      unfolding entry_lstat_fails_step [OF t entry]
      using t pc no entry by (simp add: queue_def)
  next
    case dir
    then have pc: "pc (threads s ! t) = L209" by (simp add: dir_lstat_fails_def)
    then have no: "\<not> entry_lstat_fails fs (threads s ! t)" "\<not> opendir_fails fs (threads s ! t)"
      "\<not> closedir_fails_at fs (threads s ! t)"
      by (simp_all add: entry_lstat_fails_def opendir_fails_def closedir_fails_at_def)
    show ?thesis
      unfolding dir_lstat_fails_step [OF t dir]
      using t pc no dir by (simp add: queue_def)
  next
    case opendir
    then have pc: "pc (threads s ! t) = L219" by (simp add: opendir_fails_def)
    then have no: "\<not> entry_lstat_fails fs (threads s ! t)" "\<not> dir_lstat_fails fs (threads s ! t)"
      "\<not> closedir_fails_at fs (threads s ! t)"
      by (simp_all add: entry_lstat_fails_def dir_lstat_fails_def closedir_fails_at_def)
    show ?thesis
      unfolding opendir_fails_step [OF t opendir]
      using t pc no opendir by (simp add: queue_def)
  next
    case closedir
    then have pc: "pc (threads s ! t) = L237" by (simp add: closedir_fails_at_def)
    then have no: "\<not> entry_lstat_fails fs (threads s ! t)" "\<not> dir_lstat_fails fs (threads s ! t)"
      "\<not> opendir_fails fs (threads s ! t)"
      by (simp_all add: entry_lstat_fails_def dir_lstat_fails_def opendir_fails_def)
    show ?thesis
      unfolding closedir_fails_step [OF t closedir]
      using t pc no closedir by (simp add: queue_def)
  qed
qed

lemma step_log:
  assumes "step fs t s = Some s'"
  shows "(exit_status s = 1 \<longrightarrow> exit_status s' = 1) \<and> (\<exists>ms. stderr_log s' = stderr_log s @ ms)"
proof -
  from assms have t: "t < length (threads s)"
    by (simp add: step_def split: if_splits)
  have a: "\<And>m. (exit_status s = 1 \<longrightarrow> exit_status (set_exit_status m s) = 1) \<and>
      (\<exists>ms. stderr_log (set_exit_status m s) = stderr_log s @ ms)"
    by (simp add: set_exit_status_def)
  have g: "(exit_status s = 1 \<longrightarrow> exit_status (snd (get_available_file s)) = 1) \<and>
      (\<exists>ms. stderr_log (snd (get_available_file s)) = stderr_log s @ ms)"
    by (simp add: get_available_file_def Let_def)
  show ?thesis
  proof (cases "pc (threads s ! t)")
    case L181
    with assms t g show ?thesis
      by (cases "get_available_file s")
        (auto simp: step_def Let_def split: if_splits option.splits)
  next
    case L209
    with assms t a show ?thesis
      by (auto simp: step_def Let_def split: option.splits)
  next
    case L219
    with assms t a show ?thesis
      by (auto simp: step_def Let_def split: option.splits)
  next
    case L230
    with assms t a show ?thesis
      by (auto simp: step_def Let_def split: option.splits list.splits if_splits)
  next
    case L237
    with assms t a show ?thesis
      by (auto simp: step_def Let_def split: if_splits)
  qed (use assms t in \<open>auto simp: step_def Let_def split: if_splits\<close>)
qed

lemma exec_log:
  "exec fs sched s = Some s' \<Longrightarrow>
   (exit_status s = 1 \<longrightarrow> exit_status s' = 1) \<and> (\<exists>ms. stderr_log s' = stderr_log s @ ms)"
proof (induction sched arbitrary: s)
  case Nil
  then show ?case by simp
next
  case (Cons t sched)
  from exec_Cons [OF Cons.prems] obtain s1
    where s1: "step fs t s = Some s1" "exec fs sched s1 = Some s'" by blast
  from step_log [OF s1(1)] Cons.IH [OF s1(2)] show ?case by auto
qed

text \<open>
  C8, as the code has it. In a run of the pool started by \<^verbatim>\<open>main\<close>, let a worker be about
  to fail in one of the four places. Its step appends one message to the error stream
  (for \<^verbatim>\<open>opendir\<close> and for \<^verbatim>\<open>lstat\<close> of the directory with the directory's path, for
  \<^verbatim>\<open>closedir\<close> without a path) and sets \<^verbatim>\<open>exit_status\<close> to 1, touching neither the
  accumulators nor the queue nor the semaphore. After a failed \<^verbatim>\<open>lstat\<close> of an entry the
  worker stays in the \<^verbatim>\<open>readdir\<close> loop with the remaining entries and an unchanged local
  total; a directory that cannot be statted or opened returns 0; a failed \<^verbatim>\<open>closedir\<close>
  returns what the entries added. From then on \<^verbatim>\<open>exit_status\<close> stays 1 and the error
  stream only grows, the run can be completed, and every complete run of \<^verbatim>\<open>main\<close> through
  this step prints for each root the total of everything that could be read and returns
  exit status 1.
\<close>

theorem failures_are_isolated:
  assumes k: "0 < k" and nr: "0 < nr_available_files (initialize fs uninit argv k)"
    and pre: "exec fs pre (pool fs uninit argv k) = Some s" and t: "t < k"
    and f: "entry_lstat_fails fs (threads s ! t) \<or> dir_lstat_fails fs (threads s ! t) \<or>
            opendir_fails fs (threads s ! t) \<or> closedir_fails_at fs (threads s ! t)"
  shows "\<exists>s1. step fs t s = Some s1 \<and> exit_status s1 = 1 \<and>
           (\<exists>m. stderr_log s1 = stderr_log s @ [m]) \<and>
           (dir_lstat_fails fs (threads s ! t) \<longrightarrow>
              stderr_log s1 = stderr_log s @ [Unable_to_stat (name (f_dir (threads s ! t)))]) \<and>
           (opendir_fails fs (threads s ! t) \<longrightarrow>
              stderr_log s1 =
                stderr_log s @ [Cannot_read_directory (name (f_dir (threads s ! t)))]) \<and>
           (closedir_fails_at fs (threads s ! t) \<longrightarrow>
              stderr_log s1 = stderr_log s @ [Closedir_error]) \<and>
           total_sizes s1 = total_sizes s \<and> queue s1 = queue s \<and>
           available_sem s1 = available_sem s \<and>
           f_dir (threads s1 ! t) = f_dir (threads s ! t) \<and>
           (entry_lstat_fails fs (threads s ! t) \<longrightarrow>
              pc (threads s1 ! t) = L230 \<and> dir_t (threads s1 ! t) = tl (dir_t (threads s ! t)) \<and>
              size_v (threads s1 ! t) = size_v (threads s ! t)) \<and>
           (dir_lstat_fails fs (threads s ! t) \<or> opendir_fails fs (threads s ! t) \<longrightarrow>
              pc (threads s1 ! t) = L184 \<and> size_v (threads s1 ! t) = 0) \<and>
           (closedir_fails_at fs (threads s ! t) \<longrightarrow>
              pc (threads s1 ! t) = L184 \<and> size_v (threads s1 ! t) = size_v (threads s ! t)) \<and>
           (\<forall>post s'. exec fs post s1 = Some s' \<longrightarrow>
              exit_status s' = 1 \<and> (\<exists>ms. stderr_log s' = stderr_log s1 @ ms)) \<and>
           (\<exists>post s'. exec fs post s1 = Some s' \<and> all_returned s') \<and>
           (\<forall>post out st. main fs uninit argv k (pre @ t # post) = Some (out, st) \<longrightarrow>
              st = 1 \<and>
              out = map (\<lambda>(j, file). (sint (seen_total fs uninit j file) sdiv 2, file))
                      (enumerate 0 argv))"
proof -
  from exec_inv [OF pool_inv_pool [OF k] pre] have inv: "pool_inv s" .
  from exec_threads_length [OF pre] t have t': "t < length (threads s)" by simp
  from failing_step [OF t' f] obtain s1 where s1: "step fs t s = Some s1" "exit_status s1 = 1"
    and rest: "(\<exists>m. stderr_log s1 = stderr_log s @ [m]) \<and>
           (dir_lstat_fails fs (threads s ! t) \<longrightarrow>
              stderr_log s1 = stderr_log s @ [Unable_to_stat (name (f_dir (threads s ! t)))]) \<and>
           (opendir_fails fs (threads s ! t) \<longrightarrow>
              stderr_log s1 =
                stderr_log s @ [Cannot_read_directory (name (f_dir (threads s ! t)))]) \<and>
           (closedir_fails_at fs (threads s ! t) \<longrightarrow>
              stderr_log s1 = stderr_log s @ [Closedir_error]) \<and>
           total_sizes s1 = total_sizes s \<and> queue s1 = queue s \<and>
           available_sem s1 = available_sem s \<and>
           f_dir (threads s1 ! t) = f_dir (threads s ! t) \<and>
           (entry_lstat_fails fs (threads s ! t) \<longrightarrow>
              pc (threads s1 ! t) = L230 \<and> dir_t (threads s1 ! t) = tl (dir_t (threads s ! t)) \<and>
              size_v (threads s1 ! t) = size_v (threads s ! t)) \<and>
           (dir_lstat_fails fs (threads s ! t) \<or> opendir_fails fs (threads s ! t) \<longrightarrow>
              pc (threads s1 ! t) = L184 \<and> size_v (threads s1 ! t) = 0) \<and>
           (closedir_fails_at fs (threads s ! t) \<longrightarrow>
              pc (threads s1 ! t) = L184 \<and> size_v (threads s1 ! t) = size_v (threads s ! t))"
    by blast
  have later: "\<forall>post s'. exec fs post s1 = Some s' \<longrightarrow>
      exit_status s' = 1 \<and> (\<exists>ms. stderr_log s' = stderr_log s1 @ ms)"
    using exec_log [of fs _ s1] s1(2) by blast
  from pool_inv_step [OF inv s1(1)] have "pool_inv s1" .
  from eventually_returns [OF this, of fs]
  have fin: "\<exists>post s'. exec fs post s1 = Some s' \<and> all_returned s'" .
  have m: "\<forall>post out st. main fs uninit argv k (pre @ t # post) = Some (out, st) \<longrightarrow>
      st = 1 \<and>
      out = map (\<lambda>(j, file). (sint (seen_total fs uninit j file) sdiv 2, file)) (enumerate 0 argv)"
  proof (intro allI impI)
    fix post out st
    assume a: "main fs uninit argv k (pre @ t # post) = Some (out, st)"
    have e: "exec fs (pre @ t # post) (pool fs uninit argv k) = exec fs post s1"
      by (simp add: exec_append pre s1(1))
    from a nr obtain s' where s': "exec fs post s1 = Some s'" and st: "st = exit_status s'"
      unfolding main_def Let_def pool_def [symmetric] e
      by (auto split: option.splits if_splits)
    from later s' st have "st = 1" by blast
    with main_output [OF k a]
    show "st = 1 \<and>
      out = map (\<lambda>(j, file). (sint (seen_total fs uninit j file) sdiv 2, file)) (enumerate 0 argv)"
      by simp
  qed
  from s1 rest later fin m show ?thesis by blast
qed

theorem failures_are_isolated_witness:
  "entry_lstat_fails err_fs (threads (err_at 10) ! 0) \<and>
   stderr_log (err_at 10) = [] \<and> exit_status (err_at 10) = 0 \<and>
   dir_t (threads (err_at 10) ! 0) = [''x'', ''y'', ''z''] \<and>
   (\<exists>s1. step err_fs 0 (err_at 10) = Some s1 \<and> exit_status s1 = 1 \<and>
      (\<exists>m. stderr_log s1 = [m]) \<and> pc (threads s1 ! 0) = L230 \<and>
      dir_t (threads s1 ! 0) = [''y'', ''z''] \<and> total_sizes s1 = [8]) \<and>
   main err_fs no_stat [''a''] 1 (replicate 10 0 @ 0 # replicate 28 0) = Some ([(10, ''a'')], 1)"
proof -
  have h: "0 < (1::nat)" "0 < nr_available_files (initialize err_fs no_stat [''a''] 1)"
    "exec err_fs (replicate 10 0) (pool err_fs no_stat [''a''] 1) = Some (err_at 10)"
    "(0::nat) < 1"
    "entry_lstat_fails err_fs (threads (err_at 10) ! 0) \<or>
     dir_lstat_fails err_fs (threads (err_at 10) ! 0) \<or>
     opendir_fails err_fs (threads (err_at 10) ! 0) \<or>
     closedir_fails_at err_fs (threads (err_at 10) ! 0)"
    by code_simp+
  have v: "entry_lstat_fails err_fs (threads (err_at 10) ! 0)"
    "stderr_log (err_at 10) = []" "exit_status (err_at 10) = 0"
    "dir_t (threads (err_at 10) ! 0) = [''x'', ''y'', ''z'']" "total_sizes (err_at 10) = [8]"
    by code_simp+
  have m: "main err_fs no_stat [''a''] 1 (replicate 10 0 @ 0 # replicate 28 0)
      = Some ([(10, ''a'')], 1)"
    by code_simp
  from failures_are_isolated [OF h] v m show ?thesis by auto
qed

text \<open>
  C8 as stated fails on the path: the entry \<^verbatim>\<open>a/x\<close> cannot be statted, and the message
  names the directory \<^verbatim>\<open>a\<close>, which can; the message for the failed \<^verbatim>\<open>closedir\<close> names no
  path at all.
\<close>

theorem log_names_the_parent:
  "lstat err_fs ''a/x'' = None \<and> lstat err_fs ''a'' = Some \<lparr>st_blocks = 8, st_isdir = True\<rparr> \<and>
   stderr_log (err_at 10) = [] \<and>
   pc (threads (err_at 10) ! 0) = L230 \<and> dir_t (threads (err_at 10) ! 0) = [''x'', ''y'', ''z''] \<and>
   name (f_dir (threads (err_at 10) ! 0)) = ''a'' \<and>
   stderr_log (err_at 11) = [Unable_to_stat ''a''] \<and>
   all_returned (err_at 39) \<and>
   stderr_log (err_at 39) = [Unable_to_stat ''a'', Closedir_error, Cannot_read_directory ''a/y'']"
  by code_simp

end
